theory Spec2Isabelle
  imports Main "HOL-Library.Word"
begin

unbundle bit_operations_syntax

section \<open>JavaScript numbers and arrays\<close>

text \<open>
  The library works on arrays of JavaScript numbers. Every number that occurs is an
  integer, so a number is an \<open>int\<close>. The bitwise operators first reduce their operands to
  32 bits (\<open>toW\<close>); \<open>|\<close>, \<open>&\<close>, \<open>^\<close>, \<open><<\<close> and \<open>>>\<close> give a signed 32-bit result, \<open>>>>\<close> an
  unsigned one, and a shift count is taken modulo 32.
\<close>

type_synonym bitArray = "int list"

datatype error = Corrupt string | Invalid string | TypeError string | OutOfModel string

definition toW :: "int \<Rightarrow> 32 word" where
  "toW x = word_of_int x"

definition js_or :: "int \<Rightarrow> int \<Rightarrow> int" where
  "js_or a b = sint (toW a OR toW b)"

definition js_and :: "int \<Rightarrow> int \<Rightarrow> int" where
  "js_and a b = sint (toW a AND toW b)"

definition js_xor :: "int \<Rightarrow> int \<Rightarrow> int" where
  "js_xor a b = sint (toW a XOR toW b)"

definition js_not :: "int \<Rightarrow> int" where
  "js_not a = sint (NOT (toW a))"

definition js_shl :: "int \<Rightarrow> int \<Rightarrow> int" where
  "js_shl a n = sint (push_bit (nat (n mod 32)) (toW a))"

definition js_shr :: "int \<Rightarrow> int \<Rightarrow> int" where
  "js_shr a n = uint (drop_bit (nat (n mod 32)) (toW a))"

definition js_sar :: "int \<Rightarrow> int \<Rightarrow> int" where
  "js_sar a n = sint (signed_drop_bit (nat (n mod 32)) (toW a))"

text \<open>Division of a number by a positive constant, truncated towards zero
  (\<open>x/32|0\<close>, and the integer conversion of a fractional index).\<close>

definition js_tdiv :: "int \<Rightarrow> int \<Rightarrow> int" where
  "js_tdiv a b = (if 0 \<le> a then a div b else - ((- a) div b))"

text \<open>\<open>a[i]\<close> where the value is used by a bitwise operator only: an index outside the
  array gives \<open>undefined\<close>, which such an operator reads as 0.\<close>

definition nth0 :: "int list \<Rightarrow> int \<Rightarrow> int" where
  "nth0 a i = (if 0 \<le> i \<and> i < int (length a) then a ! nat i else 0)"

text \<open>\<open>Array.prototype.slice(start, end)\<close>, with its treatment of negative and
  too large indices.\<close>

definition js_slice :: "'a list \<Rightarrow> int \<Rightarrow> int \<Rightarrow> 'a list" where
  "js_slice a s e =
     (let n = int (length a);
          s' = (if s < 0 then max (n + s) 0 else min s n);
          e' = (if e < 0 then max (n + e) 0 else min e n)
      in take (nat (e' - s')) (drop (nat s') a))"

definition js_slice_from :: "'a list \<Rightarrow> int \<Rightarrow> 'a list" where
  "js_slice_from a s = js_slice a s (int (length a))"

section \<open>The bit container\<close>

text \<open>
  Modelled from the spec: the bit container of section 4.A, which the source takes from
  the bundled library \<^verbatim>\<open>./built/sjcl/sjcl\<close> (\<^verbatim>\<open>sjcl.bitArray\<close>); that file is not among the
  source files. A bit array is a sequence of 32-bit big-endian words with an exact bit
  length: every word but the last holds 32 bits, and the last word \<open>x\<close> holds
  \<open>getPartial x\<close> bits in its high-order end, the count being stored above bit 40 of the
  number. The definitions follow the library's algorithms on that representation,
  since the source reads and writes the words directly.
\<close>

definition partial :: "int \<Rightarrow> int \<Rightarrow> bool \<Rightarrow> int" where
  "partial len x end =
     (if len = 32 then x
      else (if end then js_or x 0 else js_shl x (32 - len)) + len * 0x10000000000)"

definition getPartial :: "int \<Rightarrow> int" where
  "getPartial x =
     (let r = (x + 0x8000000000) div 0x10000000000 in if r = 0 then 32 else r)"

definition bitLength :: "bitArray \<Rightarrow> int" where
  "bitLength a =
     (if a = [] then 0 else (int (length a) - 1) * 32 + getPartial (last a))"

definition clamp :: "bitArray \<Rightarrow> int \<Rightarrow> bitArray" where
  "clamp a len =
     (if int (length a) * 32 < len then a
      else
        let a' = js_slice a 0 (- ((- len) div 32));
            l = length a';
            len' = js_and len 31
        in if l > 0 \<and> len' \<noteq> 0
           then a'[l - 1 := partial len' (js_and (a' ! (l - 1)) (js_sar 0x80000000 (len' - 1))) True]
           else a')"

text \<open>The first loop of \<open>_shiftRight\<close>: whole words of shift move the carry to the output.\<close>

function shiftRight_whole :: "int \<Rightarrow> int \<Rightarrow> int list \<Rightarrow> int \<times> int \<times> int list" where
  "shiftRight_whole shift carry out =
     (if shift \<ge> 32 then shiftRight_whole (shift - 32) 0 (out @ [carry])
      else (shift, carry, out))"
  by pat_completeness auto
termination
  by (relation "measure (\<lambda>(shift, carry, out). nat shift)") auto

declare shiftRight_whole.simps [simp del]

text \<open>The second loop: each word is split between the current and the next output word.\<close>

fun shiftRight_loop :: "int \<Rightarrow> int list \<Rightarrow> int \<Rightarrow> int list \<Rightarrow> int list \<times> int" where
  "shiftRight_loop shift [] carry out = (out, carry)"
| "shiftRight_loop shift (x # xs) carry out =
     shiftRight_loop shift xs (js_shl x (32 - shift)) (out @ [js_or carry (js_shr x shift)])"

text \<open>
  \<open>_shiftRight(a, shift, carry, out)\<close>. Where the library is called without \<open>carry\<close> and
  \<open>out\<close>, the model passes 0 and the empty list: the missing carry is only read by \<open>|\<close>,
  and the one word it can reach unchanged is dropped by the caller (\<open>bitSlice\<close>).
  \<open>out.pop()\<close> on an empty array is read by \<open>|\<close> as 0.
\<close>

definition shiftRight :: "int list \<Rightarrow> int \<Rightarrow> int \<Rightarrow> int list \<Rightarrow> int list" where
  "shiftRight a shift carry out =
     (case shiftRight_whole shift carry out of (shift1, carry1, out1) \<Rightarrow>
        if shift1 = 0 then out1 @ a
        else
          case shiftRight_loop shift1 a carry1 out1 of (out2, carry2) \<Rightarrow>
            let last2 = (if a = [] then 0 else last a);
                shift2 = getPartial last2
            in if shift1 + shift2 > 32
               then out2 @ [partial (js_and (shift1 + shift2) 31) carry2 True]
               else butlast out2 @
                    [partial (js_and (shift1 + shift2) 31) (if out2 = [] then 0 else last out2) True])"

definition concat_bits :: "bitArray \<Rightarrow> bitArray \<Rightarrow> bitArray" where
  "concat_bits a1 a2 =
     (if a1 = [] \<or> a2 = [] then a1 @ a2
      else
        let lst = last a1; shift = getPartial lst
        in if shift = 32 then a1 @ a2
           else shiftRight a2 shift (js_or lst 0) (butlast a1))"

definition bitSlice :: "bitArray \<Rightarrow> int \<Rightarrow> int option \<Rightarrow> bitArray" where
  "bitSlice a bstart bend =
     (let a' = tl (shiftRight (js_slice_from a (js_tdiv bstart 32)) (32 - js_and bstart 31) 0 [])
      in case bend of None \<Rightarrow> a' | Some e \<Rightarrow> clamp a' (e - bstart))"

definition extract_bits :: "bitArray \<Rightarrow> int \<Rightarrow> int \<Rightarrow> int" where
  "extract_bits a bstart blength =
     (let sh = js_and (- bstart - blength) 31;
          x = (if js_and (js_xor (bstart + blength - 1) bstart) (- 32) \<noteq> 0
               then js_xor (js_shl (nth0 a (js_tdiv bstart 32)) (32 - sh))
                           (js_shr (nth0 a (js_tdiv bstart 32 + 1)) sh)
               else js_shr (nth0 a (js_tdiv bstart 32)) sh)
      in js_and x (js_shl 1 blength - 1))"

fun equal_loop :: "int list \<Rightarrow> int list \<Rightarrow> int \<Rightarrow> int" where
  "equal_loop [] b x = x"
| "equal_loop (ai # a) b x =
     equal_loop a (tl b) (js_or x (js_xor ai (if b = [] then 0 else hd b)))"

definition equal_bits :: "bitArray \<Rightarrow> bitArray \<Rightarrow> bool" where
  "equal_bits a b =
     (if bitLength a \<noteq> bitLength b then False else equal_loop a b 0 = 0)"

section \<open>Nonce and handle codec\<close>

text \<open>\<open>output.splice(i, 0, c)\<close>: insert \<open>c\<close> before position \<open>i\<close>.\<close>

definition js_splice_insert :: "'a list \<Rightarrow> nat \<Rightarrow> 'a list \<Rightarrow> 'a list" where
  "js_splice_insert out i xs = take i out @ xs @ drop i out"

text \<open>
  The loop of \<open>eb.comm.demangleNonce\<close> over the full words. Reading \<open>nonce[i]\<close> past the end
  of the array would subtract from \<open>undefined\<close> and store a NaN, which an \<open>int\<close> cannot
  hold: the model reports it as \<open>OutOfModel\<close>. It cannot happen for an array whose last
  word holds at most 32 bits.
\<close>

function demangle_loop ::
  "bitArray \<Rightarrow> int \<Rightarrow> nat \<Rightarrow> int \<Rightarrow> int list \<Rightarrow> error + (nat \<times> int \<times> int list)" where
  "demangle_loop nonce bl i bp output =
     (if bp + 32 \<le> bl then
        (if i < length nonce
         then demangle_loop nonce bl (i + 1) (bp + 32)
                (js_splice_insert output i [nonce ! i - 0x01010101])
         else Inl (OutOfModel ''nonce word missing''))
      else Inr (i, bp, output))"
  by pat_completeness auto
termination
  by (relation "measure (\<lambda>(nonce, bl, i, bp, output). nat (bl - bp))") auto

declare demangle_loop.simps [simp del]

definition demangleNonce :: "bitArray \<Rightarrow> error + bitArray" where
  "demangleNonce nonce =
     (let bl = bitLength nonce in
      if js_and bl 7 \<noteq> 0 then Inl (Invalid ''nonce has to be aligned to bytes'')
      else
        case demangle_loop nonce bl 0 0 [] of
          Inl e \<Rightarrow> Inl e
        | Inr (i, bp, output) \<Rightarrow>
            if bp + 32 = bl then Inr output
            else
              let rbl = bl - (bp - 32);
                  sub = js_and 0x01010101 (js_shl (js_shl 1 rbl - 1) (32 - rbl));
                  c = (if i < length nonce then js_shr (nonce ! i - sub) rbl else 0)
              in Inr (clamp (js_splice_insert output i [c]) bl))"

text \<open>
  Modelled from the spec: the server's mangling of the nonce (section 4.D), which is not
  part of this repository: 0x01010101 is added to each full 32-bit word, and for a final
  word of \<open>r < 32\<close> bits only the high \<open>r\<close> bits of the constant take part.
\<close>

definition mangleWord :: "int \<Rightarrow> int" where
  "mangleWord x =
     (let r = getPartial x in
      if r = 32 then js_or (x + 0x01010101) 0
      else partial r (js_and (x + 0x01010101) (js_sar 0x80000000 (r - 1))) True)"

definition mangleNonce :: "bitArray \<Rightarrow> bitArray" where
  "mangleNonce nonce = map mangleWord nonce"

section \<open>Strings, hexadecimal codec and argument conversion\<close>

text \<open>Sequencing of steps that may throw: the first error ends the computation.\<close>

definition bind_err :: "error + 'a \<Rightarrow> ('a \<Rightarrow> error + 'b) \<Rightarrow> error + 'b" where
  "bind_err m f = (case m of Inl e \<Rightarrow> Inl e | Inr x \<Rightarrow> f x)"

definition hexdigit :: "nat \<Rightarrow> char" where
  "hexdigit d = (''0123456789abcdef'' ! (d mod 16))"

definition hexval :: "char \<Rightarrow> nat option" where
  "hexval c =
     (let n = of_char c :: nat in
      if 48 \<le> n \<and> n \<le> 57 then Some (n - 48)
      else if 97 \<le> n \<and> n \<le> 102 then Some (n - 87)
      else if 65 \<le> n \<and> n \<le> 70 then Some (n - 55)
      else None)"

definition is_hex :: "char \<Rightarrow> bool" where
  "is_hex c = (hexval c \<noteq> None)"

text \<open>The characters matched by \<open>\s\<close> and removed by \<open>trim\<close>, among the 8-bit characters.\<close>

definition is_space :: "char \<Rightarrow> bool" where
  "is_space c = (of_char c \<in> {9, 10, 11, 12, 13, 32, 160 :: nat})"

definition toUpperCase :: "string \<Rightarrow> string" where
  "toUpperCase s =
     map (\<lambda>c. let n = of_char c :: nat in if 97 \<le> n \<and> n \<le> 122 then char_of (n - 32) else c) s"

definition trim :: "string \<Rightarrow> string" where
  "trim s = rev (dropWhile is_space (rev (dropWhile is_space s)))"

text \<open>\<open>x.replace(/^0x/, '')\<close>\<close>

definition strip0x :: "string \<Rightarrow> string" where
  "strip0x s = (if take 2 s = ''0x'' then drop 2 s else s)"

text \<open>\<open>Number.prototype.toString(16)\<close> on an integer.\<close>

fun hexstr_nat :: "nat \<Rightarrow> string" where
  "hexstr_nat n = (if n < 16 then [hexdigit n] else hexstr_nat (n div 16) @ [hexdigit (n mod 16)])"

declare hexstr_nat.simps [simp del]

definition toString16 :: "int \<Rightarrow> string" where
  "toString16 n = (if n < 0 then CHR ''-'' # hexstr_nat (nat (- n)) else hexstr_nat (nat n))"

text \<open>
  Modelled from the spec: the formatting of a number by the conversions \<open>%0wx\<close> and \<open>%0wX\<close>
  of \<open>sprintf\<close> (\<^verbatim>\<open>./eb-util-sprintf\<close> is not among the source files): the hexadecimal
  digits of the number, padded with zeros on the left to at least \<open>w\<close> characters. The
  properties below only use it on numbers from 0 to \<open>2^32 - 1\<close>.
\<close>

definition sprintf_0x :: "nat \<Rightarrow> int \<Rightarrow> string" where
  "sprintf_0x w n = (let d = toString16 n in replicate (w - length d) (CHR ''0'') @ d)"

definition sprintf_0X :: "nat \<Rightarrow> int \<Rightarrow> string" where
  "sprintf_0X w n = toUpperCase (sprintf_0x w n)"

text \<open>\<open>parseInt(s, 16)\<close>: leading white space, a sign, an optional \<open>0x\<close>, then the longest run
  of hexadecimal digits; \<open>None\<close> is NaN.\<close>

fun hexdigits_value :: "string \<Rightarrow> int \<Rightarrow> int" where
  "hexdigits_value [] acc = acc"
| "hexdigits_value (c # cs) acc =
     (case hexval c of None \<Rightarrow> acc | Some d \<Rightarrow> hexdigits_value cs (acc * 16 + int d))"

definition parseInt16 :: "string \<Rightarrow> int option" where
  "parseInt16 s =
     (let s1 = dropWhile is_space s;
          neg = (take 1 s1 = ''-'');
          s2 = (if take 1 s1 = ''-'' \<or> take 1 s1 = ''+'' then drop 1 s1 else s1);
          s3 = (if take 2 s2 = ''0x'' \<or> take 2 s2 = ''0X'' then drop 2 s2 else s2)
      in if s3 = [] \<or> \<not> is_hex (hd s3) then None
         else Some ((if neg then - 1 else 1) * hexdigits_value s3 0))"

text \<open>
  Modelled from the spec: the hexadecimal codec (\<^verbatim>\<open>sjcl.codec.hex\<close> of the bundled library).
  \<open>fromBits\<close> writes each word as eight digits and cuts the string at the bit length;
  \<open>toBits\<close> removes white space and every \<open>0x\<close>, reads eight digits per word and clamps
  the array to four bits per digit.
\<close>

definition hex8 :: "int \<Rightarrow> string" where
  "hex8 x = map (\<lambda>i. hexdigit (unat (drop_bit (4 * (7 - i)) (toW x)))) [0..<8]"

definition hex_fromBits :: "bitArray \<Rightarrow> string" where
  "hex_fromBits arr = take (nat (js_tdiv (bitLength arr) 4)) (concat (map hex8 arr))"

fun remove_space_0x :: "string \<Rightarrow> string" where
  "remove_space_0x [] = []"
| "remove_space_0x [c] = (if is_space c then [] else [c])"
| "remove_space_0x (c # d # cs) =
     (if is_space c then remove_space_0x (d # cs)
      else if c = CHR ''0'' \<and> d = CHR ''x'' then remove_space_0x cs
      else c # remove_space_0x (d # cs))"

function hex_words :: "string \<Rightarrow> int list" where
  "hex_words str =
     (if str = [] then []
      else (case parseInt16 (take 8 str) of None \<Rightarrow> 0 | Some v \<Rightarrow> js_xor v 0)
           # hex_words (drop 8 str))"
  by pat_completeness auto
termination
  by (relation "measure length") auto

declare hex_words.simps [simp del]

definition hex_toBits :: "string \<Rightarrow> bitArray" where
  "hex_toBits str =
     (let s = remove_space_0x str
      in clamp (hex_words (s @ ''00000000'')) (int (length s) * 4))"

text \<open>An argument that may be a number, a string or a bit array.\<close>

datatype jsin = Num int | Str string | Bits bitArray

definition is_hex_string :: "string \<Rightarrow> bool" where
  "is_hex_string x = (x \<noteq> [] \<and> list_all is_hex x)"

definition inputToBits :: "jsin \<Rightarrow> error + bitArray" where
  "inputToBits x =
     (case x of
        Num n \<Rightarrow> Inr (hex_toBits (sprintf_0x 2 n))
      | Str s \<Rightarrow>
          (let x' = strip0x (trim s)
           in if \<not> is_hex_string x' then Inl (Invalid ''Invalid hex coded number'')
              else Inr (hex_toBits x'))
      | Bits a \<Rightarrow> Inr a)"

definition inputToHexNum :: "jsin \<Rightarrow> error + int" where
  "inputToHexNum x =
     (case x of
        Num n \<Rightarrow> Inr n
      | Str s \<Rightarrow>
          (let x' = strip0x (trim s)
           in if \<not> is_hex_string x' then Inl (Invalid ''Invalid hex coded number'')
              else Inr (hexdigits_value x' 0))
      | Bits a \<Rightarrow> Inl (Invalid ''Invalid argument - not a number or string''))"

definition getZeroBits :: "int \<Rightarrow> bitArray" where
  "getZeroBits bitLen =
     (if bitLen \<le> 0 then []
      else bitSlice (replicate (8 + nat (- ((256 - bitLen) div 32))) 0) 0 (Some bitLen))"

definition misc_xor :: "int list \<Rightarrow> int list \<Rightarrow> int list" where
  "misc_xor x y =
     [js_xor (nth0 x 0) (nth0 y 0), js_xor (nth0 x 1) (nth0 y 1),
      js_xor (nth0 x 2) (nth0 y 2), js_xor (nth0 x 3) (nth0 y 3)]"

definition replacePart :: "bitArray \<Rightarrow> int \<Rightarrow> int \<Rightarrow> bitArray \<Rightarrow> bitArray" where
  "replacePart buffer offsetStartBit offsetEndBit replacement =
     (let ba = concat_bits (bitSlice buffer 0 (Some offsetStartBit)) replacement
      in concat_bits ba (bitSlice buffer offsetEndBit None))"

definition transformPart ::
  "bitArray \<Rightarrow> int \<Rightarrow> int \<Rightarrow> (bitArray \<Rightarrow> bitArray) \<Rightarrow> bitArray" where
  "transformPart buffer offsetStartBit offsetEndBit fction =
     (let slice = bitSlice buffer offsetStartBit (Some offsetEndBit);
          ba = concat_bits (bitSlice buffer 0 (Some offsetStartBit)) (fction slice)
      in concat_bits ba (bitSlice buffer offsetEndBit None))"

definition padHexToEven :: "string \<Rightarrow> string" where
  "padHexToEven x =
     (let x' = strip0x (filter (\<lambda>c. \<not> is_space c) (trim x))
      in if odd (length x') then CHR ''0'' # x' else x')"

section \<open>Padding schemes\<close>

text \<open>The common check of the block length argument (\<open>None\<close> when it is not passed).\<close>

definition pkcs7_blocklen :: "int option \<Rightarrow> error + unit" where
  "pkcs7_blocklen blocklen =
     (let bl = (case blocklen of None \<Rightarrow> 16 | Some b \<Rightarrow> if b = 0 then 16 else b)
      in if bl = 0 \<or> js_and bl (bl - 1) \<noteq> 0
         then Inl (Corrupt ''blocklength has to be power of 2'')
         else if bl \<noteq> 16
         then Inl (Corrupt ''blocklength different than 16 is not implemented yet'')
         else Inr ())"

definition pkcs7_pad :: "bitArray \<Rightarrow> int option \<Rightarrow> error + bitArray" where
  "pkcs7_pad a blocklen =
     bind_err (pkcs7_blocklen blocklen) (\<lambda>_.
       let bl = bitLength a;
           padLen = 16 - js_and (js_sar bl 3) 15;
           padFill = padLen * 0x1010101
       in Inr (js_slice (concat_bits a [padFill, padFill, padFill, padFill]) 0
                 (js_sar (js_sar bl 3 + padLen) 2)))"

definition pkcs7_unpad :: "bitArray \<Rightarrow> int option \<Rightarrow> error + bitArray" where
  "pkcs7_unpad a blocklen =
     bind_err (pkcs7_blocklen blocklen) (\<lambda>_.
       let bl = bitLength a in
       if js_and bl 127 \<noteq> 0 \<or> a = []
       then Inl (Corrupt ''input must be a positive multiple of the block size'')
       else
         let bi = js_and (nth0 a (js_sar (js_sar bl 3) 2 - 1)) 255 in
         if bi = 0 \<or> bi > 16 then Inl (Corrupt ''pkcs#5 padding corrupt'')
         else
           let bo = bi * 0x1010101;
               alen = js_shl (int (length a)) 5
           in if \<not> equal_bits (bitSlice [bo, bo, bo, bo] 0 (Some (js_shl bi 3)))
                                (bitSlice a (alen - js_shl bi 3) (Some alen))
              then Inl (Corrupt ''pkcs#5 padding corrupt'')
              else Inr (bitSlice a 0 (Some (alen - js_shl bi 3))))"

text \<open>
  Random words come from the generator of the bundled library (\<open>sjcl.random.randomWords\<close>).
  The model is given the words the generator will return, in order; a computation that
  asks for more words than were given ends with \<open>OutOfModel\<close>.
\<close>

fun draw_nonzero :: "int list \<Rightarrow> error + (int \<times> int list)" where
  "draw_nonzero [] = Inl (OutOfModel ''random words exhausted'')"
| "draw_nonzero (r # rs) =
     (let curByte = js_and r 0xff in if curByte = 0 then draw_nonzero rs else Inr (curByte, rs))"

text \<open>The loop of \<open>eb.padding.pkcs15.pad\<close> that builds the padding string \<open>ps\<close>.\<close>

function pkcs15_ps_loop ::
  "int \<Rightarrow> int \<Rightarrow> int \<Rightarrow> int \<Rightarrow> int list \<Rightarrow> int list \<Rightarrow> error + (int \<times> int \<times> int list \<times> int list)" where
  "pkcs15_ps_loop bt psLen i tmp ps rng =
     (if i < psLen then
        bind_err (if bt = 1 then Inr (0xff, rng)
                  else if bt = 2 then draw_nonzero rng
                  else Inr (0, rng))
          (\<lambda>(curByte, rng').
             let tmp' = js_or (js_shl tmp 8) curByte
             in if js_and i 3 = 3 then pkcs15_ps_loop bt psLen (i + 1) 0 (ps @ [tmp']) rng'
                else pkcs15_ps_loop bt psLen (i + 1) tmp' ps rng')
      else Inr (i, tmp, ps, rng))"
  by pat_completeness auto
termination
  by (relation "measure (\<lambda>(bt, psLen, i, tmp, ps, rng). nat (psLen - i))") auto

declare pkcs15_ps_loop.simps [simp del]

definition pkcs15_pad ::
  "int list \<Rightarrow> bitArray \<Rightarrow> int \<Rightarrow> int option \<Rightarrow> error + (bitArray \<times> int list)" where
  "pkcs15_pad rng a blockLength bt0 =
     (let bl = bitLength a;
          bt = (case bt0 of None \<Rightarrow> 0 | Some b \<Rightarrow> b)
      in if js_and bl 7 \<noteq> 0 \<or> a = []
         then Inl (Corrupt ''input type has to have be byte padded'')
         else if bt \<noteq> 0 \<and> bt \<noteq> 1 \<and> bt \<noteq> 2 then Inl (Corrupt ''invalid BT size'')
         else if bl div 8 + 3 > blockLength
         then Inl (Corrupt ''data to pad is too big for the padding block length'')
         else
           bind_err (pkcs15_ps_loop bt (blockLength - 3 - bl div 8) 0 0 [] rng)
             (\<lambda>(i, tmp, ps0, rng').
                let ps = (if js_and i 3 \<noteq> 0 then ps0 @ [partial (8 * js_and i 3) tmp False] else ps0);
                    baBuff0 = [partial 8 0 False];
                    baBuff1 = concat_bits baBuff0 [partial 8 bt False];
                    baBuff2 = concat_bits baBuff1 ps;
                    baBuff3 = concat_bits baBuff2 [partial 8 0 False]
                in Inr (concat_bits baBuff3 a, rng')))"

section \<open>AES-CBC and CBC-MAC\<close>

text \<open>
  Modelled from the spec: the AES block primitive (library-provided, \<open>sjcl.cipher.aes\<close>). It
  is a parameter of the model: \<open>E key\<close> and \<open>D key\<close> are the block encryption and
  decryption under a key, on blocks of four 32-bit words. The constructor rejects a key
  that is not of 4, 6 or 8 words, the block operations reject an input that is not of
  4 words, and the result is an array of four signed 32-bit numbers.
\<close>

type_synonym block = "32 word \<times> 32 word \<times> 32 word \<times> 32 word"
type_synonym blockfn = "32 word list \<Rightarrow> block \<Rightarrow> block"

definition new_aes :: "bitArray \<Rightarrow> error + 32 word list" where
  "new_aes key =
     (if length key \<noteq> 4 \<and> length key \<noteq> 6 \<and> length key \<noteq> 8
      then Inl (Invalid ''invalid aes key size'')
      else Inr (map toW key))"

definition to_block :: "int list \<Rightarrow> block" where
  "to_block d = (toW (d ! 0), toW (d ! 1), toW (d ! 2), toW (d ! 3))"

definition of_block :: "block \<Rightarrow> int list" where
  "of_block b = (case b of (b0, b1, b2, b3) \<Rightarrow> [sint b0, sint b1, sint b2, sint b3])"

definition cipher_crypt :: "(block \<Rightarrow> block) \<Rightarrow> int list \<Rightarrow> error + int list" where
  "cipher_crypt F d =
     (if length d \<noteq> 4 then Inl (Invalid ''invalid aes block size'')
      else Inr (of_block (F (to_block d))))"

text \<open>\<open>sjcl.misc.hmac_cbc.prototype.mac\<close> with block size 16 and the empty padding
  (\<open>eb.padding.empty\<close>, the identity), as every call in the source has it.\<close>

function hmac_cbc_loop ::
  "(block \<Rightarrow> block) \<Rightarrow> bitArray \<Rightarrow> int \<Rightarrow> int \<Rightarrow> int \<Rightarrow> int list \<Rightarrow> error + int list" where
  "hmac_cbc_loop F data bl i bp c =
     (if bp + 128 \<le> bl then
        bind_err (cipher_crypt F (misc_xor c (js_slice data i (i + 4))))
          (\<lambda>c'. hmac_cbc_loop F data bl (i + 4) (bp + 128) c')
      else Inr c)"
  by pat_completeness auto
termination
  by (relation "measure (\<lambda>(F, data, bl, i, bp, c). nat (bl - bp))") auto

declare hmac_cbc_loop.simps [simp del]

definition hmac_cbc_mac :: "(block \<Rightarrow> block) \<Rightarrow> bitArray \<Rightarrow> error + bitArray" where
  "hmac_cbc_mac F data = hmac_cbc_loop F data (bitLength data) 0 0 (getZeroBits (16 * 8))"

function cbc_encrypt_loop ::
  "(block \<Rightarrow> block) \<Rightarrow> bitArray \<Rightarrow> int \<Rightarrow> int \<Rightarrow> int \<Rightarrow> int list \<Rightarrow> int list
     \<Rightarrow> error + (int \<times> int list \<times> int list)" where
  "cbc_encrypt_loop F b bl i bp c output =
     (if bp + 128 \<le> bl then
        bind_err (cipher_crypt F (misc_xor c (js_slice b i (i + 4))))
          (\<lambda>c'. cbc_encrypt_loop F b bl (i + 4) (bp + 128) c'
                   (js_splice_insert output (nat i) [nth0 c' 0, nth0 c' 1, nth0 c' 2, nth0 c' 3]))
      else Inr (i, c, output))"
  by pat_completeness auto
termination
  by (relation "measure (\<lambda>(F, b, bl, i, bp, c, output). nat (bl - bp))") auto

declare cbc_encrypt_loop.simps [simp del]

definition cbc_encrypt ::
  "(block \<Rightarrow> block) \<Rightarrow> bitArray \<Rightarrow> bitArray \<Rightarrow> bitArray \<Rightarrow> bool \<Rightarrow> error + bitArray" where
  "cbc_encrypt F b c d noPad =
     (if d \<noteq> [] then Inl (Invalid ''cbc can't authenticate data'')
      else if bitLength c \<noteq> 128 then Inl (Invalid ''cbc iv must be 128 bits'')
      else
        let bl = bitLength b in
        if noPad \<and> js_and bl 127 \<noteq> 0
        then Inl (Invalid ''when padding is disabled, plaintext has to be a positive multiple of a block size'')
        else if js_and bl 7 \<noteq> 0
        then Inl (Invalid ''pkcs#5 padding only works for multiples of a byte'')
        else
          bind_err (cbc_encrypt_loop F b bl 0 0 c [])
            (\<lambda>(i, c1, output).
               if \<not> noPad then
                 let pl = (16 - js_and (js_sar bl 3) 15) * 0x1010101
                 in bind_err (cipher_crypt F
                                (misc_xor c1 (js_slice (concat_bits b [pl, pl, pl, pl]) i (i + 4))))
                      (\<lambda>c2. Inr (js_splice_insert output (nat i)
                                    [nth0 c2 0, nth0 c2 1, nth0 c2 2, nth0 c2 3]))
               else Inr output))"

function cbc_decrypt_loop ::
  "(block \<Rightarrow> block) \<Rightarrow> bitArray \<Rightarrow> int \<Rightarrow> int list \<Rightarrow> int list
     \<Rightarrow> error + (int \<times> int list)" where
  "cbc_decrypt_loop F b i c output =
     (if i < int (length b) \<and> 0 \<le> i then
        (let bi = js_slice b i (i + 4)
         in bind_err (cipher_crypt F bi)
              (\<lambda>dec. let bo = misc_xor c dec
                      in cbc_decrypt_loop F b (i + 4) bi
                           (js_splice_insert output (nat i) [nth0 bo 0, nth0 bo 1, nth0 bo 2, nth0 bo 3])))
      else Inr (i, output))"
  by pat_completeness auto
termination
  by (relation "measure (\<lambda>(F, b, i, c, output). nat (int (length b) - i))") auto

declare cbc_decrypt_loop.simps [simp del]

definition cbc_decrypt ::
  "(block \<Rightarrow> block) \<Rightarrow> bitArray \<Rightarrow> bitArray \<Rightarrow> bitArray \<Rightarrow> bool \<Rightarrow> error + bitArray" where
  "cbc_decrypt F b c d noPad =
     (if d \<noteq> [] then Inl (Invalid ''cbc can't authenticate data'')
      else if bitLength c \<noteq> 128 then Inl (Invalid ''cbc iv must be 128 bits'')
      else if js_and (bitLength b) 127 \<noteq> 0 \<or> b = []
      then Inl (Corrupt ''cbc ciphertext must be a positive multiple of the block size'')
      else
        bind_err (cbc_decrypt_loop F b 0 c [])
          (\<lambda>(i, output).
             if \<not> noPad then
               let bi = js_and (nth0 output (i - 1)) 255 in
               if bi = 0 \<or> bi > 16 then Inl (Corrupt ''pkcs#5 padding corrupt'')
               else
                 let bo = bi * 0x1010101;
                     olen = js_shl (int (length output)) 5
                 in if \<not> equal_bits (bitSlice [bo, bo, bo, bo] 0 (Some (js_shl bi 3)))
                                      (bitSlice output (olen - js_shl bi 3) (Some olen))
                    then Inl (Corrupt ''pkcs#5 padding corrupt'')
                    else Inr (bitSlice output 0 (Some (olen - js_shl bi 3)))
             else Inr output))"

section \<open>UO handles\<close>

definition getUoHandle :: "string \<Rightarrow> jsin option \<Rightarrow> jsin option \<Rightarrow> error + string" where
  "getUoHandle apiKey uoId uoType =
     (case uoId of
        None \<Rightarrow> Inr apiKey
      | Some uid \<Rightarrow>
          let uoType' = (case uoType of None \<Rightarrow> Num 0 | Some t \<Rightarrow> t)
          in bind_err (inputToHexNum uid) (\<lambda>idNum.
             bind_err (inputToHexNum uoType') (\<lambda>typeNum.
               Inr (apiKey @ ''00'' @ sprintf_0x 8 idNum @ ''00'' @ sprintf_0x 8 typeNum))))"

text \<open>The characters of the class \<open>[a-zA-Z0-9_-]\<close>.\<close>

definition is_handle_char :: "char \<Rightarrow> bool" where
  "is_handle_char c =
     (let n = of_char c :: nat in
      (97 \<le> n \<and> n \<le> 122) \<or> (65 \<le> n \<and> n \<le> 90) \<or> (48 \<le> n \<and> n \<le> 57) \<or> n = 95 \<or> n = 45)"

text \<open>The part of the handle pattern after the first group, up to the end of the string:
  \<open>00([0-9a-fA-F]{8})(?:00([0-9a-fA-F]{8}))?$\<close>. The optional group is tried first.\<close>

definition handle_tail :: "string \<Rightarrow> (string \<times> string option) option" where
  "handle_tail s =
     (if take 2 s = ''00'' \<and> length (take 8 (drop 2 s)) = 8 \<and> list_all is_hex (take 8 (drop 2 s))
      then
        let r = drop 10 s in
        if take 2 r = ''00'' \<and> length (take 8 (drop 2 r)) = 8 \<and> list_all is_hex (take 8 (drop 2 r))
           \<and> drop 10 r = []
        then Some (take 8 (drop 2 s), Some (take 8 (drop 2 r)))
        else if r = [] then Some (take 8 (drop 2 s), None)
        else None
      else None)"

text \<open>The lazy first group \<open>([a-zA-Z0-9_-]+?)\<close>: the shortest non-empty prefix of handle
  characters after which the rest of the pattern matches.\<close>

fun handle_match :: "string \<Rightarrow> string \<Rightarrow> (string \<times> string \<times> string option) option" where
  "handle_match acc [] = None"
| "handle_match acc (c # cs) =
     (if \<not> is_handle_char c then None
      else case handle_tail cs of
             Some (uid, ut) \<Rightarrow> Some (acc @ [c], uid, ut)
           | None \<Rightarrow> handle_match (acc @ [c]) cs)"

record parsedHandle =
  apiKey :: string
  uoId :: string
  uoType :: "string option"

definition parseHandle :: "string \<Rightarrow> error + parsedHandle" where
  "parseHandle handle =
     (case handle_match [] handle of
        None \<Rightarrow> Inl (Invalid (''Invalid handle: '' @ handle))
      | Some (k, uid, ut) \<Rightarrow> Inr \<lparr>apiKey = k, uoId = uid, uoType = ut\<rparr>)"

section \<open>ProcessData request builder\<close>

record processDataRequestBodyBuilder =
  userObjectId :: jsin
  nonce :: jsin
  aesKey :: jsin
  macKey :: jsin
  reqType :: string

text \<open>\<open>eb.misc.genNonce(length, alphabet)\<close>, drawing one random word for each character.\<close>

fun genNonce :: "nat \<Rightarrow> string \<Rightarrow> int list \<Rightarrow> error + (string \<times> int list)" where
  "genNonce 0 alphabet rng = Inr ([], rng)"
| "genNonce (Suc n) alphabet [] = Inl (OutOfModel ''random words exhausted'')"
| "genNonce (Suc n) alphabet (r # rs) =
     bind_err (genNonce n alphabet rs)
       (\<lambda>(rest, rng'). Inr ((alphabet ! nat (js_and r 0xffff mod int (length alphabet))) # rest, rng'))"

definition genHexNonce :: "nat \<Rightarrow> int list \<Rightarrow> error + (string \<times> int list)" where
  "genHexNonce n rng = genNonce n ''0123456789abcdef'' rng"

text \<open>The values that \<open>this.nonce || ...\<close> replaces.\<close>

definition is_falsy :: "jsin \<Rightarrow> bool" where
  "is_falsy x = (x = Str [] \<or> x = Num 0)"

text \<open>
  \<open>processDataRequestBodyBuilder.build(plainData, requestData)\<close>. The result is the builder
  with its nonce set and the request body. The number \<open>plainDataLength\<close> is a whole number
  only for plain data of whole bytes; the model does not format a fraction.
\<close>

definition build ::
  "blockfn \<Rightarrow> int list \<Rightarrow> processDataRequestBodyBuilder \<Rightarrow> bitArray \<Rightarrow> bitArray
     \<Rightarrow> error + (processDataRequestBodyBuilder \<times> string)" where
  "build E rng this plainData requestData =
     bind_err (if is_falsy (nonce this)
               then bind_err (genHexNonce 16 rng) (\<lambda>(n, rng'). Inr (Str n))
               else Inr (nonce this)) (\<lambda>nonce1.
     let this1 = this\<lparr>nonce := nonce1\<rparr>;
         baPlain = plainData;
         plainBitLength = bitLength baPlain;
         baBuff0 = [partial 8 0x1f False]
     in
     bind_err (inputToHexNum (userObjectId this1)) (\<lambda>uoNum.
     let baBuff1 = concat_bits baBuff0 [uoNum] in
     bind_err (inputToBits (nonce this1)) (\<lambda>nonceBits.
     let baBuff2 = concat_bits baBuff1 nonceBits;
         baBuff3 = concat_bits baBuff2 requestData
     in
     bind_err (pkcs7_pad baBuff3 None) (\<lambda>baBuff.
     bind_err (inputToBits (aesKey this1)) (\<lambda>aesKeyBits.
     bind_err (inputToBits (macKey this1)) (\<lambda>macKeyBits.
     bind_err (new_aes aesKeyBits) (\<lambda>aes.
     bind_err (new_aes macKeyBits) (\<lambda>aesMac.
     let IV = [0, 0, 0, 0] in
     bind_err (cbc_encrypt (E aes) baBuff IV [] True) (\<lambda>encryptedData.
     bind_err (hmac_cbc_mac (E aesMac) encryptedData) (\<lambda>hmacData.
     if plainBitLength mod 8 \<noteq> 0 then Inl (OutOfModel ''plain data length is not a whole number'')
     else
       Inr (this1,
            ''Packet0_'' @ reqType this1 @ ''_'' @ sprintf_0X 4 (plainBitLength div 8)
              @ hex_fromBits plainData @ hex_fromBits encryptedData @ hex_fromBits hmacData)))))))))))"

section \<open>ProcessData response parser\<close>

text \<open>The JSON response of the service, its fields as strings. A missing \<open>status\<close>,
  \<open>statusdetail\<close> or \<open>function\<close> is the empty string, which the code treats like a missing
  one. The field \<open>result\<close> is present and is a string: a response without it is not
  in the model.\<close>

record jsonResponse =
  status :: string
  statusdetail :: string
  function_name :: string
  result :: string

record processDataResponse =
  statusCode :: "int option"
  statusDetail :: string
  function_field :: string
  result_field :: string
  plainData :: bitArray
  protectedData :: bitArray
  userObjectID :: int
  resp_nonce :: bitArray
  mac :: bitArray
  computedMac :: bitArray

definition new_processDataResponse :: processDataResponse where
  "new_processDataResponse =
     \<lparr>statusCode = Some 0, statusDetail = [], function_field = [], result_field = [],
      plainData = [], protectedData = [], userObjectID = 0, resp_nonce = [], mac = [],
      computedMac = []\<rparr>"

definition parseCommonHeaders ::
  "processDataResponse \<Rightarrow> jsonResponse \<Rightarrow> error + processDataResponse" where
  "parseCommonHeaders resp data =
     (if status data = [] \<or> function_name data = [] then Inl (Invalid ''response data invalid'')
      else Inr (resp\<lparr>statusCode := parseInt16 (status data),
                     statusDetail := statusdetail data,
                     function_field := function_name data,
                     result_field := result data\<rparr>))"

definition isCodeOk :: "processDataResponse \<Rightarrow> bool" where
  "isCodeOk resp = (statusCode resp = Some 0x9000)"

text \<open>\<open>resultBuffer.substring(0, resultBuffer.indexOf("_"))\<close>: empty when there is no
  underscore.\<close>

definition result_head :: "string \<Rightarrow> string" where
  "result_head r = (if CHR ''_'' \<in> set r then takeWhile (\<lambda>c. c \<noteq> CHR ''_'') r else [])"

definition extract32 :: "bitArray \<Rightarrow> int \<Rightarrow> int" where
  "extract32 a bstart =
     (let sh = js_and (- bstart - 32) 31
      in if js_and (js_xor (bstart + 32 - 1) bstart) (- 32) \<noteq> 0
         then js_xor (js_shl (nth0 a (js_tdiv bstart 32)) (32 - sh))
                     (js_shr (nth0 a (js_tdiv bstart 32 + 1)) sh)
         else js_shr (nth0 a (js_tdiv bstart 32)) sh)"

text \<open>
  \<open>processDataResponseParser.parse\<close>, in two parts: \<open>parse\<close> is the function up to and
  including the verification of the MAC, and \<open>parse_decrypt\<close> is the rest of its body,
  from the comment \<open>// Decrypt.\<close> on.
\<close>

definition parse_decrypt ::
  "(block \<Rightarrow> block) \<Rightarrow> processDataResponse \<Rightarrow> bitArray \<Rightarrow> bitArray \<Rightarrow> error + processDataResponse" where
  "parse_decrypt Daes resp2 dataToDecrypt plainBits =
     (if js_and (bitLength dataToDecrypt) 127 \<noteq> 0
      then Inl (Corrupt ''Ciphertext block invalid'')
      else
        let IV = [0, 0, 0, 0] in
        bind_err (cbc_decrypt Daes dataToDecrypt IV [] False) (\<lambda>decryptedData.
        let responseFlag = extract_bits decryptedData 0 8 in
        if responseFlag \<noteq> 0xf1
        then Inl (Corrupt ''Given data packet is not a response (flag mismatch)'')
        else
          let resp3 = resp2\<lparr>userObjectID := extract32 decryptedData 8\<rparr>;
              returnedMangledNonce = bitSlice decryptedData (5 * 8) (Some (5 * 8 + 8 * 8))
          in
          bind_err (demangleNonce returnedMangledNonce) (\<lambda>n.
            Inr (resp3\<lparr>resp_nonce := n,
                       protectedData := bitSlice decryptedData (5 * 8 + 8 * 8) None,
                       plainData := plainBits\<rparr>))))"

definition parse ::
  "blockfn \<Rightarrow> blockfn \<Rightarrow> jsin \<Rightarrow> jsin \<Rightarrow> jsonResponse \<Rightarrow> error + processDataResponse" where
  "parse E D aesKey0 macKey0 data =
     bind_err (parseCommonHeaders new_processDataResponse data) (\<lambda>resp.
     if \<not> isCodeOk resp then Inr resp
     else
       let resultBuffer = result_field resp;
           baResult = hex_toBits (result_head resultBuffer);
           plainLen = extract_bits baResult 0 (2 * 8);
           plainBits = bitSlice baResult (2 * 8) (Some (2 * 8 + plainLen * 8));
           protectedBits = bitSlice baResult (2 * 8 + plainLen * 8) None;
           protectedBitsBl = bitLength protectedBits
       in
       bind_err (inputToBits aesKey0) (\<lambda>aesKeyBits.
       bind_err (inputToBits macKey0) (\<lambda>macKeyBits.
       bind_err (new_aes aesKeyBits) (\<lambda>aes.
       bind_err (new_aes macKeyBits) (\<lambda>aesMac.
       let macTagOffset = protectedBitsBl - 16 * 8;
           dataToMac = bitSlice protectedBits 0 (Some macTagOffset)
       in
       if js_and (bitLength dataToMac) 127 \<noteq> 0 then Inl (Corrupt ''Padding size invalid'')
       else
         let resp1 = resp\<lparr>mac := bitSlice protectedBits macTagOffset None\<rparr> in
         if bitLength (mac resp1) \<noteq> 16 * 8 then Inl (Corrupt ''MAC corrupted'')
         else
           bind_err (hmac_cbc_mac (E aesMac) dataToMac) (\<lambda>cmac.
           let resp2 = resp1\<lparr>computedMac := cmac\<rparr> in
           if \<not> equal_bits (mac resp2) (computedMac resp2)
           then Inl (Corrupt ''Padding is not valid'')
           else parse_decrypt (D aes) resp2 (bitSlice protectedBits 0 (Some macTagOffset))
                  plainBits))))))"

text \<open>The ciphertext and the tag that \<open>parse\<close> cuts out of a response: the names of the
  source for them are \<open>dataToMac\<close> (and \<open>dataToDecrypt\<close>) and \<open>resp.mac\<close>.\<close>

definition response_protectedBits :: "jsonResponse \<Rightarrow> bitArray" where
  "response_protectedBits data =
     (let baResult = hex_toBits (result_head (result data));
          plainLen = extract_bits baResult 0 (2 * 8)
      in bitSlice baResult (2 * 8 + plainLen * 8) None)"

definition response_plainBits :: "jsonResponse \<Rightarrow> bitArray" where
  "response_plainBits data =
     (let baResult = hex_toBits (result_head (result data));
          plainLen = extract_bits baResult 0 (2 * 8)
      in bitSlice baResult (2 * 8) (Some (2 * 8 + plainLen * 8)))"

definition response_ct :: "jsonResponse \<Rightarrow> bitArray" where
  "response_ct data =
     (let protectedBits = response_protectedBits data
      in bitSlice protectedBits 0 (Some (bitLength protectedBits - 16 * 8)))"

definition response_tag :: "jsonResponse \<Rightarrow> bitArray" where
  "response_tag data =
     (let protectedBits = response_protectedBits data
      in bitSlice protectedBits (bitLength protectedBits - 16 * 8) None)"

section \<open>Template filler\<close>

record keyOffset =
  ko_type :: string
  ko_offset :: int
  ko_length :: int

record importKey =
  ik_id :: int
  ik_type :: string
  ik_key :: jsin

record uoTemplate =
  template :: jsin
  encryptionoffset :: int
  flagoffset :: int
  keyoffsets :: "keyOffset list"
  importkeys :: "importKey list"
  objectid :: string

text \<open>
  The loop of \<open>templateFiller.build\<close> over \<open>keyoffsets\<close>. \<open>keys\<close> maps a key type to the
  \<open>key\<close> field of the key supplied for it. The state is the blob and the flag
  \<open>appKeyProvided\<close>.
\<close>

fun fill_keys ::
  "(string \<rightharpoonup> jsin) \<Rightarrow> keyOffset list \<Rightarrow> bitArray \<times> bool \<Rightarrow> error + (bitArray \<times> bool)" where
  "fill_keys keys [] st = Inr st"
| "fill_keys keys (cKeyOff # rest) (ba, appKeyProvided) =
     (if ko_type cKeyOff = [] \<or> keys (ko_type cKeyOff) = None
      then fill_keys keys rest (ba, appKeyProvided)
      else
        case inputToBits (the (keys (ko_type cKeyOff))) of
          Inl e \<Rightarrow> Inl e
        | Inr cKeyVal \<Rightarrow>
            if bitLength cKeyVal \<noteq> ko_length cKeyOff
            then fill_keys keys rest (ba, appKeyProvided)
            else fill_keys keys rest
                   (replacePart ba (ko_offset cKeyOff) (ko_offset cKeyOff + ko_length cKeyOff) cKeyVal,
                    appKeyProvided \<or> ko_type cKeyOff = ''app''))"

text \<open>The function applied to the flag byte.\<close>

definition reset_flags :: "bool \<Rightarrow> bitArray \<Rightarrow> bitArray" where
  "reset_flags appKeyProvided x =
     (let num0 = extract_bits x 0 8;
          num1 = js_and num0 (js_not 0x8);
          num2 = (if appKeyProvided then js_and num1 (js_not 0x10) else num1)
      in [partial 8 num2 False])"

text \<open>The first part of \<open>build\<close>: the keys are spliced in and the flag byte is patched.\<close>

definition patch_template ::
  "uoTemplate \<Rightarrow> (string \<rightharpoonup> jsin) \<Rightarrow> error + bitArray" where
  "patch_template tpl keys =
     bind_err (inputToBits (template tpl)) (\<lambda>ba0.
     bind_err (fill_keys keys (keyoffsets tpl) (ba0, False)) (\<lambda>(ba1, appKeyProvided).
       Inr (transformPart ba1 (flagoffset tpl + 8) (flagoffset tpl + 16)
              (reset_flags appKeyProvided))))"

definition randomWords :: "nat \<Rightarrow> int list \<Rightarrow> error + (int list \<times> int list)" where
  "randomWords n rng =
     (if length rng < n then Inl (OutOfModel ''random words exhausted'')
      else Inr (take n rng, drop n rng))"

fun getBestImportKey_loop ::
  "importKey list \<Rightarrow> importKey option \<Rightarrow> importKey option \<Rightarrow> importKey option \<times> importKey option" where
  "getBestImportKey_loop [] kRsa1024 kRsa2048 = (kRsa1024, kRsa2048)"
| "getBestImportKey_loop (cKey # rest) kRsa1024 kRsa2048 =
     getBestImportKey_loop rest
       (if kRsa1024 = None \<and> ik_type cKey = ''rsa1024'' then Some cKey else kRsa1024)
       (if kRsa2048 = None \<and> ik_type cKey = ''rsa2048'' then Some cKey else kRsa2048)"

definition getBestImportKey :: "importKey list \<Rightarrow> importKey option" where
  "getBestImportKey ks =
     (case getBestImportKey_loop ks None None of
        (kRsa1024, kRsa2048) \<Rightarrow> (if kRsa2048 = None then kRsa1024 else kRsa2048))"

text \<open>The loop of \<open>readSerializedPubKey\<close> over the records \<open>tag | length (2 bytes) | value\<close>.\<close>

function readPubKey_loop ::
  "bitArray \<Rightarrow> nat \<Rightarrow> bitArray option \<times> bitArray option \<Rightarrow> bitArray option \<times> bitArray option" where
  "readPubKey_loop ba pos res =
     (if 8 * int pos < bitLength ba then
        let tag = extract_bits ba (8 * int pos) 8;
            len = extract_bits ba (8 * (int pos + 1)) 16;
            dat = bitSlice ba (8 * (int pos + 3)) (Some (8 * (int pos + 3 + len)))
        in readPubKey_loop ba (pos + 3 + nat len)
             (if tag = 0x81 then (fst res, Some dat)
              else if tag = 0x82 then (Some dat, snd res)
              else res)
      else res)"
  by pat_completeness auto
termination
  by (relation "measure (\<lambda>(ba, pos, res). nat (bitLength ba - 8 * int pos))") auto

declare readPubKey_loop.simps [simp del]

definition readSerializedPubKey :: "jsin \<Rightarrow> error + (bitArray \<times> bitArray)" where
  "readSerializedPubKey pubKey =
     bind_err (inputToBits pubKey) (\<lambda>ba.
       case readPubKey_loop ba 0 (None, None) of
         (Some n, Some e) \<Rightarrow> Inr (n, e)
       | _ \<Rightarrow> Inl (Invalid ''Could not deserialize TLV serialized public key''))"

text \<open>
  \<open>_rsaEncrypt\<close>. The big-integer arithmetic is library-provided (\<open>jsbn\<close>); the modular
  power is that of the integers. A missing key makes the source fail on \<open>key.type\<close>.
\<close>

definition rsaEncrypt :: "int list \<Rightarrow> bitArray \<Rightarrow> importKey option \<Rightarrow> error + (bitArray \<times> int list)" where
  "rsaEncrypt rng input key0 =
     (case key0 of
        None \<Rightarrow> Inl (TypeError ''key is undefined'')
      | Some key \<Rightarrow>
          let iKeyBl = (if ik_type key = ''rsa2048'' then 2048 else 1024) in
          bind_err (pkcs15_pad rng input (iKeyBl div 8) (Some 2)) (\<lambda>(data, rng').
          bind_err (readSerializedPubKey (ik_key key)) (\<lambda>(n, e).
            let msg = hexdigits_value (hex_fromBits data) 0;
                md = hexdigits_value (hex_fromBits n) 0
            in case parseInt16 (hex_fromBits e) of
                 None \<Rightarrow> Inl (OutOfModel ''exponent is not a number'')
               | Some ex \<Rightarrow>
                   if md \<le> 0 \<or> ex < 0 then Inl (OutOfModel ''modulus or exponent out of range'')
                   else Inr (hex_toBits (padHexToEven (toString16 ((msg ^ nat ex) mod md))), rng'))))"

record filledTemplate =
  uo :: bitArray
  keyUsed :: "importKey option"

definition templateFiller_build ::
  "blockfn \<Rightarrow> int list \<Rightarrow> uoTemplate \<Rightarrow> (string \<rightharpoonup> jsin) \<Rightarrow> error + filledTemplate" where
  "templateFiller_build E rng tpl keys =
     bind_err (patch_template tpl keys) (\<lambda>ba.
     let encOffset = encryptionoffset tpl;
         baPlain = bitSlice ba 0 (Some encOffset);
         baProtected0 = bitSlice ba encOffset None
     in
     bind_err (randomWords 8 rng) (\<lambda>(tek, rng1).
     bind_err (randomWords 8 rng1) (\<lambda>(tmk, rng2).
     bind_err (pkcs7_pad baProtected0 None) (\<lambda>baProtected1.
     bind_err (new_aes tek) (\<lambda>aes.
     bind_err (new_aes tmk) (\<lambda>aesMac.
     let IV = [0, 0, 0, 0] in
     bind_err (cbc_encrypt (E aes) baProtected1 IV [] True) (\<lambda>baProtected.
     bind_err (pkcs7_pad (concat_bits baPlain baProtected) None) (\<lambda>ba2.
     bind_err (hmac_cbc_mac (E aesMac) ba2) (\<lambda>macv.
     let ba3 = concat_bits ba2 macv;
         iKey = getBestImportKey (importkeys tpl);
         baRsaEnc0 = concat_bits [] [case parseInt16 (objectid tpl) of None \<Rightarrow> 0 | Some v \<Rightarrow> v];
         baRsaEnc1 = concat_bits baRsaEnc0 tek;
         baRsaEnc = concat_bits baRsaEnc1 tmk
     in
     bind_err (rsaEncrypt rng2 baRsaEnc iKey) (\<lambda>(wrapped, rng3).
     let finalTpl0 = [partial 8 0xa1 False];
         finalTpl1 = concat_bits finalTpl0 [partial 16 (js_tdiv (bitLength wrapped) 8) False];
         finalTpl2 = concat_bits finalTpl1 wrapped;
         finalTpl3 = concat_bits finalTpl2 [partial 8 0xa2 False];
         finalTpl4 = concat_bits finalTpl3 [partial 16 (js_tdiv (bitLength ba3) 8) False];
         finalTpl = concat_bits finalTpl4 ba3
     in Inr \<lparr>uo = finalTpl, keyUsed = iKey\<rparr>))))))))))"

section \<open>Bit arrays as sequences of bits\<close>

text \<open>
  The meaning of a bit array: the bits of its words, most significant first, the last
  word contributing \<open>getPartial\<close> bits. An array is well formed when every word but the
  last is a full word and the unused low-order bits of the last word are zero; these are
  the arrays the library produces.
\<close>

definition wbits :: "32 word \<Rightarrow> bool list" where
  "wbits w = map (\<lambda>i. bit w (31 - i)) [0..<32]"

definition wordsbits :: "int list \<Rightarrow> bool list" where
  "wordsbits ws = concat (map (\<lambda>x. wbits (toW x)) ws)"

definition bits :: "bitArray \<Rightarrow> bool list" where
  "bits a =
     (if a = [] then []
      else wordsbits (butlast a) @ take (nat (getPartial (last a))) (wbits (toW (last a))))"

definition fullword :: "int \<Rightarrow> bool" where
  "fullword x = (getPartial x = 32)"

definition wfb :: "bitArray \<Rightarrow> bool" where
  "wfb a =
     (list_all fullword (butlast a) \<and>
      (a \<noteq> [] \<longrightarrow>
         1 \<le> getPartial (last a) \<and> getPartial (last a) \<le> 32 \<and>
         take_bit (nat (32 - getPartial (last a))) (toW (last a)) = 0))"

text \<open>Bytes, most significant bit first.\<close>

definition byte_bits :: "8 word \<Rightarrow> bool list" where
  "byte_bits b = map (\<lambda>i. bit b (7 - i)) [0..<8]"

definition bytes_bits :: "8 word list \<Rightarrow> bool list" where
  "bytes_bits bs = concat (map byte_bits bs)"

text \<open>The response object after the MAC has been verified.\<close>

definition verified_response :: "jsonResponse \<Rightarrow> bitArray \<Rightarrow> processDataResponse" where
  "verified_response data cmac =
     new_processDataResponse\<lparr>statusCode := Some 0x9000, statusDetail := statusdetail data,
        function_field := function_name data, result_field := result data,
        mac := response_tag data, computedMac := cmac\<rparr>"

text \<open>An example: a response whose tag differs from the MAC in its last digit.\<close>

definition response_bad_tag :: jsonResponse where
  "response_bad_tag = \<lparr>status = ''9000'', statusdetail = [], function_name = ''ProcessData'',
      result = ''000000112233445566778899aabbccddeeff00112233445566778899aabbccddeefe_x''\<rparr>"

text \<open>The key loop of \<open>build\<close> splices a slot when the slot has a type, a key of that type
  is supplied, and the bit length of the key is the length recorded for the slot; every
  other slot is skipped.\<close>

definition spliced :: "(string \<rightharpoonup> jsin) \<Rightarrow> keyOffset \<Rightarrow> bool" where
  "spliced keys ko =
     (ko_type ko \<noteq> [] \<and>
      (case keys (ko_type ko) of
         None \<Rightarrow> False
       | Some k \<Rightarrow> (case inputToBits k of Inl e \<Rightarrow> False
                   | Inr kv \<Rightarrow> bitLength kv = ko_length ko)))"

text \<open>Bit position \<open>i\<close> of the blob lies outside every spliced key slot of the template
  and outside the flag byte.\<close>

definition outside_slots :: "(string \<rightharpoonup> jsin) \<Rightarrow> keyOffset list \<Rightarrow> nat \<Rightarrow> bool" where
  "outside_slots keys kos i =
     (\<forall>ko \<in> set kos. spliced keys ko \<longrightarrow>
        \<not> (ko_offset ko \<le> int i \<and> int i < ko_offset ko + ko_length ko))"

definition untouched :: "uoTemplate \<Rightarrow> (string \<rightharpoonup> jsin) \<Rightarrow> nat \<Rightarrow> bool" where
  "untouched tpl keys i =
     (outside_slots keys (keyoffsets tpl) i \<and>
      \<not> (flagoffset tpl + 8 \<le> int i \<and> int i < flagoffset tpl + 16))"

text \<open>An example: a template of ten bytes with a slot of 32 bits for the key \<open>commk\<close> and a
  slot of 16 bits for the key \<open>app\<close>, and keys of 32 bits for both.\<close>

definition example_template :: uoTemplate where
  "example_template =
     \<lparr>template = Str ''00ff0000aabbccdd0011'', encryptionoffset = 32, flagoffset = 0,
      keyoffsets = [\<lparr>ko_type = ''commk'', ko_offset = 32, ko_length = 32\<rparr>,
                    \<lparr>ko_type = ''app'', ko_offset = 64, ko_length = 16\<rparr>],
      importkeys = [\<lparr>ik_id = 1, ik_type = ''rsa1024'', ik_key = Str ''81000101820001fb''\<rparr>],
      objectid = ''1''\<rparr>"

definition example_keys :: "string \<rightharpoonup> jsin" where
  "example_keys = [''commk'' \<mapsto> Str ''01020304'', ''app'' \<mapsto> Str ''05060708'']"

text \<open>The signed 32-bit value of an integer.\<close>

definition s32 :: "int \<Rightarrow> int" where
  "s32 x = (x + 0x80000000) mod 0x100000000 - 0x80000000"

text \<open>The random words that \<open>eb.padding.pkcs15.pad\<close> can use for a byte of type 2: those
  whose low byte is not zero.\<close>

definition usable :: "int list \<Rightarrow> int list" where
  "usable rng = filter (\<lambda>r. js_and r 0xff \<noteq> 0) rng"

text \<open>The filler of the padding string, by block type.\<close>

definition ps_filler :: "int \<Rightarrow> 8 word list \<Rightarrow> bool" where
  "ps_filler bt ps =
     (if bt = 0 then list_all (\<lambda>b. b = 0) ps
      else if bt = 1 then list_all (\<lambda>b. b = 0xff) ps
      else list_all (\<lambda>b. b \<noteq> 0) ps)"

section \<open>Properties of the bit container\<close>

lemma length_wbits [simp]: "length (wbits w) = 32"
  by (simp add: wbits_def)

lemma nth_wbits: "i < 32 \<Longrightarrow> wbits w ! i = bit w (31 - i)"
  by (simp add: wbits_def)

lemma toW_sint [simp]: "toW (sint w) = w"
  by (simp add: toW_def)

lemma toW_uint [simp]: "toW (uint w) = w"
  by (simp add: toW_def)

lemma toW_js_or [simp]: "toW (js_or a b) = toW a OR toW b"
  by (simp add: js_or_def)
lemma toW_js_and [simp]: "toW (js_and a b) = toW a AND toW b"
  by (simp add: js_and_def)
lemma toW_js_xor [simp]: "toW (js_xor a b) = toW a XOR toW b"
  by (simp add: js_xor_def)

lemma toW_0 [simp]: "toW 0 = 0" by (simp add: toW_def)

lemma wbits_or_shift:
  assumes "0 < s" "s < 32" "take_bit (32 - s) c = 0"
  shows "wbits (c OR drop_bit s x) = take s (wbits c) @ take (32 - s) (wbits x)"
proof (rule nth_equalityI)
  show "length (wbits (c OR drop_bit s x)) = length (take s (wbits c) @ take (32 - s) (wbits x))"
    using assms by simp
next
  fix i assume "i < length (wbits (c OR drop_bit s x))"
  then have i: "i < 32" by simp
  have cz: "\<And>n. n < 32 - s \<Longrightarrow> \<not> bit c n"
  proof -
    fix n assume "n < 32 - s"
    then have "bit (take_bit (32 - s) c) n = bit c n" by (simp add: bit_take_bit_iff)
    with assms(3) show "\<not> bit c n" by simp
  qed
  show "wbits (c OR drop_bit s x) ! i = (take s (wbits c) @ take (32 - s) (wbits x)) ! i"
  proof (cases "i < s")
    case True
    then have "\<not> bit (drop_bit s x) (31 - i)"
      using assms i by (auto simp: bit_drop_bit_eq dest: bit_imp_le_length)
    with True i assms show ?thesis
      by (simp add: nth_wbits nth_append bit_or_iff)
  next
    case False
    then have "\<not> bit c (31 - i)" using cz[of "31 - i"] i assms by simp
    moreover have "s + (31 - i) = 31 - (i - s)" using False i assms by simp
    ultimately show ?thesis using False i assms
      by (simp add: nth_wbits nth_append bit_or_iff bit_drop_bit_eq)
  qed
qed

lemma wbits_push:
  assumes "s \<le> 32"
  shows "wbits (push_bit s x) = drop s (wbits x) @ replicate s False"
proof (rule nth_equalityI)
  show "length (wbits (push_bit s x)) = length (drop s (wbits x) @ replicate s False)"
    using assms by simp
next
  fix i assume "i < length (wbits (push_bit s x))"
  then have i: "i < 32" by simp
  show "wbits (push_bit s x) ! i = (drop s (wbits x) @ replicate s False) ! i"
  proof (cases "i < 32 - s")
    case True
    then have "31 - i - s = 31 - (s + i)" "s \<le> 31 - i" "31 - i < 32" by simp_all
    with True i assms show ?thesis
      by (simp add: nth_wbits nth_append bit_push_bit_iff)
  next
    case False
    then have "\<not> s \<le> 31 - i" using i by simp
    with False i assms show ?thesis
      by (simp add: nth_wbits nth_append bit_push_bit_iff)
  qed
qed

lemma take_bit_zero_iff_wbits:
  assumes "n \<le> 32"
  shows "take_bit n w = 0 \<longleftrightarrow> drop (32 - n) (wbits w) = replicate n False"
proof
  assume z: "take_bit n w = 0"
  show "drop (32 - n) (wbits w) = replicate n False"
  proof (rule nth_equalityI)
    show "length (drop (32 - n) (wbits w)) = length (replicate n False)" using assms by simp
  next
    fix i assume "i < length (drop (32 - n) (wbits w))"
    then have i: "i < n" using assms by simp
    then have "bit (take_bit n w) (n - 1 - i) = bit w (n - 1 - i)"
      by (simp add: bit_take_bit_iff)
    with z have "\<not> bit w (n - 1 - i)" by simp
    moreover have "31 - (32 - n + i) = n - 1 - i" using i assms by simp
    ultimately show "drop (32 - n) (wbits w) ! i = replicate n False ! i"
      using i assms by (simp add: nth_wbits)
  qed
next
  assume d: "drop (32 - n) (wbits w) = replicate n False"
  show "take_bit n w = 0"
  proof (rule bit_eqI)
    fix k
    show "bit (take_bit n w) k = bit (0::32 word) k"
    proof (cases "k < n")
      case True
      then have "drop (32 - n) (wbits w) ! (n - 1 - k) = False"
        using d by simp
      moreover have "32 - n + (n - 1 - k) = 31 - k" using True assms by simp
      moreover have "31 - (31 - k) = k" using True assms by simp
      ultimately have "\<not> bit w k" using True assms by (simp add: nth_wbits)
      then show ?thesis by (simp add: bit_take_bit_iff)
    next
      case False
      then show ?thesis by (simp add: bit_take_bit_iff)
    qed
  qed
qed


lemma getPartial_range: "- 0x8000000000 \<le> x \<Longrightarrow> x < 0x8000000000 \<Longrightarrow> getPartial x = 32"
  by (simp add: getPartial_def Let_def)

lemma sint32_range: "- 0x80000000 \<le> sint (w :: 32 word) \<and> sint w < 0x80000000"
  using sint_range_size[of w] by (simp add: word_size)

lemma fullword_sint [simp]: "fullword (sint (w :: 32 word))"
  using sint32_range[of w] by (simp add: fullword_def getPartial_range)

lemma fullword_js_or [simp]: "fullword (js_or a b)"
  by (simp add: js_or_def)

lemma getPartial_add:
  assumes "1 \<le> len" "- 0x8000000000 \<le> v" "v < 0x8000000000"
  shows "getPartial (v + len * 0x10000000000) = len"
proof -
  have "(v + 0x8000000000) div 0x10000000000 = 0"
    using assms by (simp add: div_pos_pos_trivial)
  moreover have "(v + len * 0x10000000000 + 0x8000000000) div 0x10000000000
      = (v + 0x8000000000 + len * 0x10000000000) div 0x10000000000" by (simp add: algebra_simps)
  ultimately have "(v + len * 0x10000000000 + 0x8000000000) div 0x10000000000 = len"
    by (simp only: div_mult_self2 div_mult_self1)
  then show ?thesis using assms by (simp add: getPartial_def Let_def)
qed

lemma toW_add_len [simp]: "toW (v + len * 0x10000000000) = toW v"
proof -
  have "(0x10000000000 :: int) = 2 ^ 32 * 256" by simp
  then have "toW (v + len * 0x10000000000) = toW v + word_of_int (len * 256) * (word_of_int (2 ^ 32) :: 32 word)"
    by (simp add: toW_def mult.commute mult.left_commute)
  also have "(word_of_int (2 ^ 32) :: 32 word) = 0" by simp
  finally show ?thesis by simp
qed

lemma getPartial_partial_end:
  "1 \<le> len \<Longrightarrow> len \<le> 31 \<Longrightarrow> getPartial (partial len x True) = len"
  using sint32_range[of "toW x OR toW 0"]
  by (simp add: partial_def js_or_def getPartial_add)

lemma toW_partial_end [simp]:
  "len \<noteq> 32 \<Longrightarrow> toW (partial len x True) = toW x"
  by (simp add: partial_def)

lemma partial_0_end: "partial 0 x True = js_or x 0"
  by (simp add: partial_def)


lemma sint_toW: "- 0x80000000 \<le> x \<Longrightarrow> x < 0x80000000 \<Longrightarrow> sint (toW x) = x"
  by (simp add: toW_def sint_sbintrunc' signed_take_bit_int_eq_self)

lemma uint_toW: "0 \<le> x \<Longrightarrow> x < 0x100000000 \<Longrightarrow> uint (toW x) = x"
  by (simp add: toW_def uint_word_of_int take_bit_int_eq_self)

lemma length_wordsbits [simp]: "length (wordsbits ws) = 32 * length ws"
  by (induction ws) (simp_all add: wordsbits_def)

lemma wordsbits_append [simp]: "wordsbits (a @ b) = wordsbits a @ wordsbits b"
  by (simp add: wordsbits_def)

lemma wordsbits_Nil [simp]: "wordsbits [] = []"
  by (simp add: wordsbits_def)

lemma wordsbits_Cons [simp]: "wordsbits (x # xs) = wbits (toW x) @ wordsbits xs"
  by (simp add: wordsbits_def)

lemma wordsbits_snoc: "wordsbits (xs @ [x]) = wordsbits xs @ wbits (toW x)"
  by simp

lemma wf_Nil [simp]: "wfb []" by (simp add: wfb_def)
lemma bits_Nil [simp]: "bits [] = []" by (simp add: bits_def)
lemma bitLength_Nil [simp]: "bitLength [] = 0" by (simp add: bitLength_def)

lemma wfI:
  assumes "list_all fullword ws" "getPartial x = p" "1 \<le> p" "p \<le> 32"
    and "wordsbits (ws @ [x]) = bs @ replicate (nat (32 - p)) False"
  shows "wfb (ws @ [x])" "bits (ws @ [x]) = bs" "bitLength (ws @ [x]) = 32 * int (length ws) + p"
proof -
  have len: "length bs = 32 * length ws + nat p"
  proof -
    have "length (wordsbits (ws @ [x])) = length bs + nat (32 - p)"
      using assms(5) by simp
    then show ?thesis using assms(3,4) by simp
  qed
  have eq: "wordsbits ws @ wbits (toW x) = bs @ replicate (nat (32 - p)) False"
    using assms(5) by simp
  have bs: "bs = wordsbits ws @ take (nat p) (wbits (toW x))"
  proof -
    have "take (32 * length ws + nat p) (wordsbits ws @ wbits (toW x))
        = take (32 * length ws + nat p) (bs @ replicate (nat (32 - p)) False)"
      using eq by simp
    then show ?thesis using len by simp
  qed
  have "drop (nat p) (wbits (toW x)) = replicate (nat (32 - p)) False"
  proof -
    have "drop (32 * length ws + nat p) (wordsbits ws @ wbits (toW x))
        = drop (32 * length ws + nat p) (bs @ replicate (nat (32 - p)) False)"
      using eq by simp
    then show ?thesis using len by simp
  qed
  moreover have "32 - nat (32 - p) = nat p" using assms(3,4) by simp
  ultimately have "take_bit (nat (32 - p)) (toW x) = 0"
    using take_bit_zero_iff_wbits[of "nat (32 - p)" "toW x"] assms(3,4) by simp
  then show "wfb (ws @ [x])" using assms(1-4) by (simp add: wfb_def)
  show "bits (ws @ [x]) = bs" using bs assms(2) by (simp add: bits_def)
  show "bitLength (ws @ [x]) = 32 * int (length ws) + p"
    using assms(2) by (simp add: bitLength_def)
qed

lemma wfD:
  assumes "wfb a" "a \<noteq> []"
  shows "wordsbits a = bits a @ replicate (nat (32 - getPartial (last a))) False"
    and "int (length (bits a)) = bitLength a"
    and "1 \<le> getPartial (last a)" and "getPartial (last a) \<le> 32"
    and "list_all fullword (butlast a)"
proof -
  let ?p = "getPartial (last a)"
  from assms have p: "1 \<le> ?p" "?p \<le> 32"
    and z: "take_bit (nat (32 - ?p)) (toW (last a)) = 0"
    and f: "list_all fullword (butlast a)"
    by (simp_all add: wfb_def)
  show "1 \<le> ?p" "?p \<le> 32" "list_all fullword (butlast a)" using p f by simp_all
  have a: "a = butlast a @ [last a]" using assms(2) by simp
  have "32 - nat (32 - ?p) = nat ?p" using p by simp
  then have d: "drop (nat ?p) (wbits (toW (last a))) = replicate (nat (32 - ?p)) False"
    using take_bit_zero_iff_wbits[of "nat (32 - ?p)" "toW (last a)"] z p by simp
  have "wordsbits a = wordsbits (butlast a) @ wbits (toW (last a))"
    using a wordsbits_snoc[of "butlast a" "last a"] by simp
  also have "wbits (toW (last a)) = take (nat ?p) (wbits (toW (last a))) @ drop (nat ?p) (wbits (toW (last a)))"
    by simp
  finally show "wordsbits a = bits a @ replicate (nat (32 - ?p)) False"
    using d assms(2) by (simp add: bits_def)
  have la: "int (length a) - 1 = int (length (butlast a))"
    using assms(2) by (cases a rule: rev_cases) simp_all
  have "length (take (nat ?p) (wbits (toW (last a)))) = nat ?p"
    using p by simp
  then have "length (bits a) = 32 * length (butlast a) + nat ?p"
    using assms(2) by (simp only: bits_def if_False length_append length_wordsbits)
  then have "int (length (bits a)) = 32 * int (length (butlast a)) + ?p"
    using p by simp
  then show "int (length (bits a)) = bitLength a"
    using assms(2) la by (simp only: bitLength_def if_False)
qed

lemma length_bits: "wfb a \<Longrightarrow> int (length (bits a)) = bitLength a"
  by (cases "a = []") (simp_all add: wfD)

lemma shiftRight_whole_small: "shift < 32 \<Longrightarrow> shiftRight_whole shift carry out = (shift, carry, out)"
  by (subst shiftRight_whole.simps) simp

lemma shiftRight_whole_32: "shiftRight_whole 32 carry out = (0, 0, out @ [carry])"
  by (subst shiftRight_whole.simps, subst shiftRight_whole.simps) simp

lemma shiftRight_loop_spec:
  assumes "0 < s" "s < 32" "take_bit (nat (32 - s)) (toW carry) = 0"
  shows "\<exists>ys carry'. shiftRight_loop s xs carry out = (out @ ys, carry') \<and>
           length ys = length xs \<and> list_all fullword ys \<and>
           wordsbits ys @ take (nat s) (wbits (toW carry')) = take (nat s) (wbits (toW carry)) @ wordsbits xs \<and>
           take_bit (nat (32 - s)) (toW carry') = 0"
  using assms(3)
proof (induction xs arbitrary: carry out)
  case Nil
  then show ?case by simp
next
  case (Cons x xs)
  let ?c = "js_shl x (32 - s)"
  let ?w = "js_or carry (js_shr x s)"
  have "0 \<le> 32 - s" "32 - s < 32" using assms by simp_all
  then have smod2: "(32 - s) mod 32 = 32 - s" by (rule mod_pos_pos_trivial)
  have smod1: "s mod 32 = s" using assms by simp
  note smod = smod1 smod2
  have tc: "toW ?c = push_bit (nat (32 - s)) (toW x)"
    by (simp only: js_shl_def smod toW_sint)
  have tw: "toW ?w = toW carry OR drop_bit (nat s) (toW x)"
    by (simp add: js_shr_def smod)
  have cz: "take_bit (nat (32 - s)) (toW ?c) = 0"
    by (simp add: tc take_bit_push_bit)
  from Cons.IH[OF cz, of "out @ [?w]"] obtain ys carry' where
    ih: "shiftRight_loop s xs ?c (out @ [?w]) = ((out @ [?w]) @ ys, carry')"
      "length ys = length xs" "list_all fullword ys"
      "wordsbits ys @ take (nat s) (wbits (toW carry')) = take (nat s) (wbits (toW ?c)) @ wordsbits xs"
      "take_bit (nat (32 - s)) (toW carry') = 0"
    by blast
  have "wbits (toW carry OR drop_bit (nat s) (toW x))
      = take (nat s) (wbits (toW carry)) @ take (32 - nat s) (wbits (toW x))"
    using wbits_or_shift[of "nat s" "toW carry" "toW x"] assms Cons.prems
    by (simp add: nat_diff_distrib)
  then have wb: "wbits (toW ?w) = take (nat s) (wbits (toW carry)) @ take (32 - nat s) (wbits (toW x))"
    by (simp only: tw)
  have cb: "take (nat s) (wbits (toW ?c)) = drop (32 - nat s) (wbits (toW x))"
    using wbits_push[of "nat (32 - s)" "toW x"] assms
    by (simp add: tc nat_diff_distrib)
  have e4: "wordsbits (?w # ys) @ take (nat s) (wbits (toW carry'))
      = take (nat s) (wbits (toW carry)) @ wordsbits (x # xs)"
  proof -
    have "wordsbits (?w # ys) @ take (nat s) (wbits (toW carry'))
        = wbits (toW ?w) @ (wordsbits ys @ take (nat s) (wbits (toW carry')))" by simp
    also have "\<dots> = wbits (toW ?w) @ drop (32 - nat s) (wbits (toW x)) @ wordsbits xs"
      using ih(4) cb by simp
    also have "\<dots> = take (nat s) (wbits (toW carry)) @
         (take (32 - nat s) (wbits (toW x)) @ drop (32 - nat s) (wbits (toW x))) @ wordsbits xs"
      using wb by simp
    finally show ?thesis by simp
  qed
  have e1: "shiftRight_loop s (x # xs) carry out = (out @ (?w # ys), carry')"
    using ih(1) by simp
  have e3: "list_all fullword (?w # ys)" using ih(3) by simp
  have e2: "length (?w # ys) = length (x # xs)" using ih(2) by simp
  show ?case
    by (rule exI[of _ "?w # ys"], rule exI[of _ carry']) (intro conjI e1 e2 e3 e4 ih(5))
qed

lemma js_and_mask:
  assumes "k < 32"
  shows "js_and x (2 ^ k - 1) = x mod 2 ^ k"
proof -
  have "toW (2 ^ k - 1) = (mask k :: 32 word)"
    by (simp add: toW_def mask_eq_exp_minus_1)
  then have "toW x AND toW (2 ^ k - 1) = take_bit k (toW x)"
    by (simp add: take_bit_eq_mask)
  also have "\<dots> = word_of_int (take_bit k x)"
    by (simp add: toW_def) (metis of_int_and_eq take_bit_eq_mask of_int_mask_eq)
  finally have e: "toW x AND toW (2 ^ k - 1) = (word_of_int (take_bit k x) :: 32 word)" .
  have "take_bit k x < 2 ^ k" by simp
  also have "(2::int) ^ k \<le> 2 ^ 31" using assms by (intro power_increasing) simp_all
  finally have b: "take_bit k x < 2 ^ 31" .
  have "- 0x80000000 \<le> (0::int)" by simp
  also have "0 \<le> take_bit k x" by simp
  finally have "sint (toW (take_bit k x)) = take_bit k x"
    using b by (intro sint_toW) simp_all
  then have "sint (word_of_int (take_bit k x) :: 32 word) = take_bit k x"
    by (simp add: toW_def)
  then show ?thesis by (simp add: js_and_def e take_bit_eq_mod)
qed

lemma js_and_31: "js_and x 31 = x mod 32" using js_and_mask[of 5 x] by simp
lemma js_and_7: "js_and x 7 = x mod 8" using js_and_mask[of 3 x] by simp
lemma js_and_3: "js_and x 3 = x mod 4" using js_and_mask[of 2 x] by simp
lemma js_and_15: "js_and x 15 = x mod 16" using js_and_mask[of 4 x] by simp
lemma js_and_127: "js_and x 127 = x mod 128" using js_and_mask[of 7 x] by simp
lemma js_and_255: "js_and x 255 = x mod 256" using js_and_mask[of 8 x] by simp
lemma js_and_65535: "js_and x 65535 = x mod 65536" using js_and_mask[of 16 x] by simp

lemma wbits_low_zero:
  assumes "n \<le> 32" "take_bit n w = 0"
  shows "wbits w = take (32 - n) (wbits w) @ replicate n False"
proof -
  have "wbits w = take (32 - n) (wbits w) @ drop (32 - n) (wbits w)" by simp
  moreover have "drop (32 - n) (wbits w) = replicate n False"
    using take_bit_zero_iff_wbits[OF assms(1), of w] assms(2) by simp
  ultimately show ?thesis by (simp only:)
qed

lemma getPartial_0 [simp]: "getPartial 0 = 32" by (simp add: getPartial_def)

lemma repl_add: "replicate a False @ replicate b False = replicate (a + b) False"
  by (simp add: replicate_add)

lemma shiftRight_small:
  assumes "0 < s" "s < 32" "shiftRight_loop s a carry out = (out2, carry2)"
    and "p2 = getPartial (if a = [] then 0 else last a)"
  shows "shiftRight a s carry out =
     (if s + p2 > 32 then out2 @ [partial (js_and (s + p2) 31) carry2 True]
      else butlast out2 @ [partial (js_and (s + p2) 31) (if out2 = [] then 0 else last out2) True])"
  using assms by (simp add: shiftRight_def shiftRight_whole_small Let_def)

lemma shiftRight_spec:
  assumes s: "0 < s" "s < 32" and cz: "take_bit (nat (32 - s)) (toW carry) = 0"
    and wa: "wfb a" and fo: "list_all fullword out"
  shows "wfb (shiftRight a s carry out) \<and>
         bits (shiftRight a s carry out) = wordsbits out @ take (nat s) (wbits (toW carry)) @ bits a \<and>
         bitLength (shiftRight a s carry out) = 32 * int (length out) + s + bitLength a"
proof -
  define n where "n = nat s"
  have n: "0 < n" "n < 32" "int n = s" using s by (simp_all add: n_def)
  define p2 where "p2 = getPartial (if a = [] then 0 else last a)"
  define q where "q = nat p2"
  have p2: "1 \<le> p2" "p2 \<le> 32" using wa wfD(3,4)[of a] by (auto simp: p2_def)
  have q: "1 \<le> q" "q \<le> 32" "int q = p2" using p2 by (simp_all add: q_def)
  have W: "wordsbits a = bits a @ replicate (32 - q) False"
  proof (cases "a = []")
    case True then show ?thesis by (simp add: q_def p2_def)
  next
    case False
    then show ?thesis using wfD(1)[OF wa False] p2 by (simp add: q_def p2_def nat_diff_distrib)
  qed
  have BL: "bitLength a = 32 * int (length a) - 32 + p2"
    by (cases "a = []") (simp_all add: bitLength_def p2_def algebra_simps)
  obtain ys carry' where
    l1: "shiftRight_loop s a carry out = (out @ ys, carry')" and
    l2: "length ys = length a" and l3: "list_all fullword ys" and
    l4: "wordsbits ys @ take n (wbits (toW carry')) = take n (wbits (toW carry)) @ wordsbits a" and
    l5: "take_bit (nat (32 - s)) (toW carry') = 0"
    using shiftRight_loop_spec[OF s cz, of a out] unfolding n_def by blast
  have l5': "take_bit (32 - n) (toW carry') = 0" using l5 n by (simp add: n_def nat_diff_distrib)
  let ?bs = "wordsbits out @ take n (wbits (toW carry)) @ bits a"
  show ?thesis
  proof (cases "s + p2 > 32")
    case True
    define r where "r = s + p2 - 32"
    have r: "1 \<le> r" "r \<le> 31" using True s p2 by (simp_all add: r_def)
    have "(s + p2) mod 32 = (r + 32) mod 32" by (simp add: r_def)
    also have "\<dots> = r mod 32" by simp
    also have "\<dots> = r" using r by simp
    finally have jr: "js_and (s + p2) 31 = r" by (simp add: js_and_31)
    have R: "shiftRight a s carry out = (out @ ys) @ [partial r carry' True]"
      using shiftRight_small[OF s l1 p2_def] True by (simp add: jr)
    have gp: "getPartial (partial r carry' True) = r"
      using r by (simp add: getPartial_partial_end)
    have "wbits (toW carry') = take n (wbits (toW carry')) @ replicate (32 - n) False"
      using wbits_low_zero[of "32 - n" "toW carry'"] l5' n by simp
    then have "wordsbits ((out @ ys) @ [partial r carry' True])
       = wordsbits out @ (wordsbits ys @ take n (wbits (toW carry'))) @ replicate (32 - n) False"
      using r by simp
    also have "\<dots> = ?bs @ replicate (32 - q) False @ replicate (32 - n) False"
      using l4 W by simp
    also have "replicate (32 - q) False @ replicate (32 - n) False = replicate (nat (32 - r)) False"
      using True n q r by (simp add: repl_add r_def)
    finally have wb: "wordsbits ((out @ ys) @ [partial r carry' True]) = ?bs @ replicate (nat (32 - r)) False"
      by simp
    have f: "list_all fullword (out @ ys)" using fo l3 by simp
    from wfI[OF f gp r(1) _ wb] r
    have "wfb ((out @ ys) @ [partial r carry' True])" "bits ((out @ ys) @ [partial r carry' True]) = ?bs"
      "bitLength ((out @ ys) @ [partial r carry' True]) = 32 * int (length (out @ ys)) + r"
      by simp_all
    then show ?thesis using R l2 BL by (simp add: n_def r_def)
  next
    case False
    then have ane: "a \<noteq> []" using s by (auto simp: p2_def)
    then have yne: "ys \<noteq> []" using l2 by auto
    define p where "p = s + p2"
    have p: "1 \<le> p" "p \<le> 32" using False s p2 by (simp_all add: p_def)
    let ?x = "partial (js_and (s + p2) 31) (last ys) True"
    have R: "shiftRight a s carry out = (out @ butlast ys) @ [?x]"
      using shiftRight_small[OF s l1 p2_def] False yne by (simp add: butlast_append)
    have gx: "getPartial ?x = p \<and> toW ?x = toW (last ys)"
    proof (cases "p = 32")
      case True
      then have "js_and (s + p2) 31 = 0" by (simp add: js_and_31 p_def)
      then show ?thesis using True by (simp add: partial_0_end fullword_def[symmetric])
    next
      case False
      then have "js_and (s + p2) 31 = p" using p by (simp add: js_and_31 p_def)
      then show ?thesis using p False by (simp add: getPartial_partial_end)
    qed
    have "wordsbits ((out @ butlast ys) @ [?x]) = wordsbits out @ wordsbits (butlast ys @ [last ys])"
      using gx by simp
    also have "butlast ys @ [last ys] = ys" using yne by simp
    finally have w1: "wordsbits ((out @ butlast ys) @ [?x]) = wordsbits out @ wordsbits ys" .
    have la1: "length a \<ge> 1" using ane by (cases a) simp_all
    have "int (length (bits a)) = int (32 * length a - 32 + q)"
      using length_bits[OF wa] BL q(3) la1 by (simp add: of_nat_diff)
    then have lb: "length (bits a) = 32 * length a - 32 + q"
      by (simp only: of_nat_eq_iff)
    have "wordsbits ys = take (32 * length a) (wordsbits ys @ take n (wbits (toW carry')))"
      using l2 by simp
    also have "\<dots> = take (32 * length a) (take n (wbits (toW carry)) @ bits a @ replicate (32 - q) False)"
      using l4 W by simp
    also have "\<dots> = take n (wbits (toW carry)) @ bits a @ replicate (nat (32 - p)) False"
    proof -
      have pnq: "p = int n + int q" using n(3) q(3) by (simp add: p_def)
      then have "n + q \<le> 32" using p by linarith
      moreover note la1
      ultimately have "32 * length a - n - length (bits a) = 32 - n - q" 
        and "n \<le> 32 * length a" and "length (bits a) \<le> 32 * length a - n"
        using lb q by simp_all
      moreover have "min (32 - q) (32 - n - q) = nat (32 - p)"
        unfolding pnq by linarith
      ultimately show ?thesis using n by simp
    qed
    finally have w2: "wordsbits ys = take n (wbits (toW carry)) @ bits a @ replicate (nat (32 - p)) False" .
    have wb: "wordsbits ((out @ butlast ys) @ [?x]) = ?bs @ replicate (nat (32 - p)) False"
      using w1 w2 by simp
    have f: "list_all fullword (out @ butlast ys)"
      using fo l3 by (auto simp add: list_all_iff dest: in_set_butlastD)
    from wfI[OF f conjunct1[OF gx] p wb]
    have "wfb ((out @ butlast ys) @ [?x])" "bits ((out @ butlast ys) @ [?x]) = ?bs"
      "bitLength ((out @ butlast ys) @ [?x]) = 32 * int (length (out @ butlast ys)) + p"
      by simp_all
    moreover have "int (length (butlast ys)) = int (length a) - 1" using l2 yne by (cases ys rule: rev_cases) simp_all
    ultimately show ?thesis using R BL by (simp add: n_def p_def)
  qed
qed

lemma fullword_imp: "fullword x \<Longrightarrow> getPartial x = 32" by (simp add: fullword_def)

lemma wfb_full:
  assumes "list_all fullword ws"
  shows "wfb ws" "bits ws = wordsbits ws" "bitLength ws = 32 * int (length ws)"
proof -
  have "wfb ws \<and> bits ws = wordsbits ws \<and> bitLength ws = 32 * int (length ws)"
  proof (cases ws rule: rev_cases)
    case Nil
    then show ?thesis by simp
  next
    case (snoc ys y)
    then have y: "getPartial y = 32" and f: "list_all fullword ys"
      using assms by (simp_all add: fullword_def)
    show ?thesis using snoc y f by (simp add: wfb_def bits_def bitLength_def)
  qed
  then show "wfb ws" "bits ws = wordsbits ws" "bitLength ws = 32 * int (length ws)" by simp_all
qed

lemma bits_eq_wordsbits: "wfb a \<Longrightarrow> getPartial (last a) = 32 \<Longrightarrow> bits a = wordsbits a"
  by (cases a rule: rev_cases) (simp_all add: bits_def)

lemma concat_spec:
  assumes "wfb a" "wfb b"
  shows "wfb (concat_bits a b) \<and> bits (concat_bits a b) = bits a @ bits b \<and>
         bitLength (concat_bits a b) = bitLength a + bitLength b"
proof (cases "a = [] \<or> b = []")
  case True
  then show ?thesis using assms by (auto simp: concat_bits_def)
next
  case False
  then have ne: "a \<noteq> []" "b \<noteq> []" by simp_all
  let ?p = "getPartial (last a)"
  have ab: "a = butlast a @ [last a]" using ne by simp
  show ?thesis
  proof (cases "?p = 32")
    case True
    have c: "concat_bits a b = a @ b" using ne True by (simp add: concat_bits_def Let_def)
    have "list_all fullword (butlast a @ [last a])"
      using wfD(5)[OF assms(1) ne(1)] True by (simp add: fullword_def)
    then have fa: "list_all fullword a" using ne by simp
    have bl: "butlast (a @ b) = a @ butlast b" using ne by (simp add: butlast_append)
    have "wfb (a @ b)" using assms(2) ne fa by (simp add: wfb_def bl)
    moreover have "bits (a @ b) = bits a @ bits b"
      using ne wfb_full(2)[OF fa] by (simp add: bits_def bl)
    moreover have "bitLength (a @ b) = bitLength a + bitLength b"
      using ne wfb_full(3)[OF fa] by (simp add: bitLength_def algebra_simps)
    ultimately show ?thesis using c by simp
  next
    case False
    then have p: "0 < ?p" "?p < 32" using wfD(3,4)[OF assms(1) ne(1)] by simp_all
    have c: "concat_bits a b = shiftRight b ?p (js_or (last a) 0) (butlast a)"
      using ne False by (simp add: concat_bits_def Let_def)
    have cz: "take_bit (nat (32 - ?p)) (toW (js_or (last a) 0)) = 0"
      using assms(1) ne by (simp add: wfb_def)
    from shiftRight_spec[OF p cz assms(2) wfD(5)[OF assms(1) ne(1)]]
    have "wfb (concat_bits a b)"
      and "bits (concat_bits a b) = wordsbits (butlast a) @ take (nat ?p) (wbits (toW (last a))) @ bits b"
      and "bitLength (concat_bits a b) = 32 * int (length (butlast a)) + ?p + bitLength b"
      by (simp_all add: c)
    moreover have "bits a = wordsbits (butlast a) @ take (nat ?p) (wbits (toW (last a)))"
      using ne by (simp add: bits_def)
    moreover have "bitLength a = 32 * int (length (butlast a)) + ?p"
      using ne ab by (cases a rule: rev_cases) (simp_all add: bitLength_def)
    ultimately show ?thesis by simp
  qed
qed

lemmas concat_wfb = concat_spec[THEN conjunct1]
lemmas concat_bits_bits = concat_spec[THEN conjunct2, THEN conjunct1]
lemmas concat_bitLength = concat_spec[THEN conjunct2, THEN conjunct2]

lemma length_bits_le: "wfb a \<Longrightarrow> length (bits a) \<le> 32 * length a"
  by (cases a rule: rev_cases) (simp_all add: bits_def)

lemma bits_tl:
  assumes "wfb a"
  shows "wfb (tl a) \<and> bits (tl a) = drop 32 (bits a)"
proof (cases a)
  case Nil
  then show ?thesis by simp
next
  case (Cons x xs)
  show ?thesis
  proof (cases "xs = []")
    case True
    then show ?thesis using Cons length_bits_le[OF assms] by simp
  next
    case False
    then have "butlast (x # xs) = x # butlast xs" "last (x # xs) = last xs" by simp_all
    then show ?thesis using Cons False assms by (simp add: wfb_def bits_def)
  qed
qed

lemma bits_drop:
  assumes "wfb a"
  shows "wfb (drop k a) \<and> bits (drop k a) = drop (32 * k) (bits a)"
proof (induction k)
  case 0
  then show ?case using assms by simp
next
  case (Suc k)
  have "drop (Suc k) a = tl (drop k a)" by (simp add: drop_Suc tl_drop)
  then show ?case using bits_tl[of "drop k a"] Suc by (simp add: add.commute)
qed

lemma js_slice_from_nonneg: "0 \<le> k \<Longrightarrow> js_slice_from a k = drop (nat k) a"
  by (auto simp: js_slice_from_def js_slice_def Let_def min_def)

lemma js_slice_0: "0 \<le> k \<Longrightarrow> js_slice a 0 k = take (nat k) a"
  by (auto simp: js_slice_def Let_def min_def)

lemma bitSlice_None_spec:
  assumes "wfb a" "0 \<le> s"
  shows "wfb (bitSlice a s None) \<and> bits (bitSlice a s None) = drop (nat s) (bits a)"
proof -
  define k where "k = nat (s div 32)"
  define r where "r = s mod 32"
  have r: "0 \<le> r" "r < 32" by (simp_all add: r_def)
  have "s = 32 * (s div 32) + s mod 32" by simp
  moreover have "0 \<le> s div 32" using assms(2) by simp
  ultimately have sk: "nat s = 32 * k + nat r"
    unfolding k_def r_def using assms(2) by linarith
  let ?a = "drop k a"
  have a': "js_slice_from a (js_tdiv s 32) = ?a"
    using assms(2) by (simp add: js_tdiv_def js_slice_from_nonneg k_def pos_imp_zdiv_nonneg_iff)
  have wa: "wfb ?a" and ba: "bits ?a = drop (32 * k) (bits a)"
    using bits_drop[OF assms(1), of k] by simp_all
  have bs: "bitSlice a s None = tl (shiftRight ?a (32 - r) 0 [])"
    by (simp add: bitSlice_def a' js_and_31 r_def)
  show ?thesis
  proof (cases "r = 0")
    case True
    then show ?thesis using wa ba sk
      by (simp add: bs shiftRight_def shiftRight_whole_32)
  next
    case False
    then have s: "0 < 32 - r" "32 - r < 32" using r by simp_all
    from shiftRight_spec[OF s _ wa, of 0 "[]"]
    have w: "wfb (shiftRight ?a (32 - r) 0 [])"
      and b: "bits (shiftRight ?a (32 - r) 0 []) = take (nat (32 - r)) (wbits 0) @ bits ?a"
      by simp_all
    have "length (take (nat (32 - r)) (wbits 0)) = 32 - nat r" using r by (simp add: nat_diff_distrib)
    then have "drop 32 (take (nat (32 - r)) (wbits 0) @ bits ?a) = drop (nat r) (bits ?a)"
      using r by simp
    then show ?thesis using bits_tl[OF w] b ba sk by (simp add: bs add.commute)
  qed
qed

lemma bit_hi: "bit (0x80000000 :: 32 word) n \<longleftrightarrow> n = 31"
proof -
  have e: "(0x80000000 :: 32 word) = 2 ^ 31" by simp
  show ?thesis unfolding e by (simp only: bit_exp_iff) (auto simp: possible_bit_def)
qed

lemma toW_himask:
  assumes "1 \<le> r" "r \<le> 31"
  shows "toW (js_sar 0x80000000 (r - 1)) = NOT (mask (nat (32 - r)))"
proof -
  have m: "(r - 1) mod 32 = r - 1" using assms by simp
  have w: "toW 0x80000000 = (0x80000000 :: 32 word)" by (simp add: toW_def)
  show ?thesis
  proof (rule bit_eqI)
    fix i
    assume "possible_bit TYPE(32 word) i"
    then have i: "i < 32" by (simp add: possible_bit_def)
    have "bit (signed_drop_bit (nat (r - 1)) (0x80000000 :: 32 word)) i \<longleftrightarrow> nat (32 - r) \<le> i"
      unfolding bit_signed_drop_bit_iff bit_hi using assms i by (simp split: if_splits) linarith
    then show "bit (toW (js_sar 0x80000000 (r - 1))) i = bit (NOT (mask (nat (32 - r))) :: 32 word) i"
      using i by (simp add: js_sar_def m w bit_not_iff bit_mask_iff not_less)
  qed
qed

lemma wbits_and_himask:
  assumes "r \<le> 32"
  shows "wbits (w AND NOT (mask (32 - r))) = take r (wbits w) @ replicate (32 - r) False"
proof (rule nth_equalityI)
  show "length (wbits (w AND NOT (mask (32 - r)))) = length (take r (wbits w) @ replicate (32 - r) False)"
    using assms by simp
next
  fix i assume "i < length (wbits (w AND NOT (mask (32 - r))))"
  then have i: "i < 32" by simp
  show "wbits (w AND NOT (mask (32 - r))) ! i = (take r (wbits w) @ replicate (32 - r) False) ! i"
    using i assms
    by (cases "i < r") (auto simp: nth_wbits nth_append bit_and_iff bit_not_iff bit_mask_iff)
qed

lemma take_wordsbits:
  "k < length a \<Longrightarrow> r \<le> 32 \<Longrightarrow>
   take (32 * k + r) (wordsbits a) = wordsbits (take k a) @ take r (wbits (toW (a ! k)))"
proof (induction a arbitrary: k)
  case Nil
  then show ?case by simp
next
  case (Cons x xs)
  show ?case
  proof (cases k)
    case 0
    then show ?thesis using Cons.prems by simp
  next
    case (Suc j)
    then show ?thesis using Cons.IH[of j] Cons.prems by simp
  qed
qed

lemma take_wordsbits_full: "take (32 * k) (wordsbits a) = wordsbits (take k a)"
proof (induction a arbitrary: k)
  case Nil
  then show ?case by simp
next
  case (Cons x xs)
  then show ?case by (cases k) simp_all
qed

lemma bits_take_wordsbits: "wfb a \<Longrightarrow> bits a = take (nat (bitLength a)) (wordsbits a)"
proof (cases a rule: rev_cases)
  case Nil
  then show ?thesis by simp
next
  case (snoc ys y)
  assume "wfb a"
  then have "1 \<le> getPartial y" "getPartial y \<le> 32" using snoc by (simp_all add: wfb_def)
  then show ?thesis using snoc
    by (simp add: bits_def bitLength_def nat_add_distrib nat_mult_distrib)
qed

lemma bitLength_le: "wfb a \<Longrightarrow> bitLength a \<le> 32 * int (length a)"
  using length_bits_le[of a] length_bits[of a] by simp

lemma bitLength_nonneg: "wfb a \<Longrightarrow> 0 \<le> bitLength a"
  using length_bits[of a] by simp

lemma clamp_spec:
  assumes wa: "wfb a" and len: "0 \<le> len" "len \<le> bitLength a"
  shows "wfb (clamp a len) \<and> bits (clamp a len) = take (nat len) (bits a)"
proof -
  define k where "k = nat (len div 32)"
  define r where "r = len mod 32"
  have r: "0 \<le> r" "r < 32" by (simp_all add: r_def)
  have "len = 32 * (len div 32) + len mod 32" by simp
  moreover have "0 \<le> len div 32" using len(1) by simp
  ultimately have lk: "nat len = 32 * k + nat r" "len = 32 * int k + r"
    unfolding k_def r_def using len(1) by linarith+
  have le: "len \<le> 32 * int (length a)" using len(2) bitLength_le[OF wa] by simp
  have tk: "take (nat len) (bits a) = take (nat len) (wordsbits a)"
    using len bitLength_nonneg[OF wa] by (simp add: bits_take_wordsbits[OF wa] min_def)
  have nl: "\<not> int (length a) * 32 < len" using le by simp
  show ?thesis
  proof (cases "r = 0")
    case True
    then have c: "- ((- len) div 32) = int k" using lk(2) by simp
    have kl: "k \<le> length a" using le lk(2) True by simp
    have cl: "clamp a len = take k a"
      using nl True by (simp add: clamp_def Let_def c js_slice_0 js_and_31 r_def[symmetric])
    have f: "list_all fullword (take k a)"
    proof (cases "k = length a")
      case True
      then have "bitLength a = 32 * int (length a)"
        using len(2) le lk(2) \<open>r = 0\<close> bitLength_le[OF wa] by simp
      then have "a \<noteq> [] \<longrightarrow> getPartial (last a) = 32"
        by (cases a rule: rev_cases) (simp_all add: bitLength_def)
      then have "list_all fullword (butlast a @ (if a = [] then [] else [last a]))"
        using wa by (auto simp: wfb_def fullword_def)
      then show ?thesis using True by (cases "a = []") simp_all
    next
      case False
      then have "k < length a" using kl by simp
      then have "take k a = take k (butlast a)" by (simp add: take_butlast)
      moreover have "list_all fullword (butlast a)" using wa by (simp add: wfb_def)
      ultimately show ?thesis by (auto simp: list_all_iff dest: in_set_takeD)
    qed
    show ?thesis
      using wfb_full(1,2)[OF f] tk lk(1) True by (simp add: cl take_wordsbits_full)
  next
    case False
    then have rp: "1 \<le> r" "r \<le> 31" using r by simp_all
    have "(- len) div 32 = - int k - 1"
    proof (rule int_div_pos_eq)
      show "- len = 32 * (- int k - 1) + (32 - r)" using lk(2) by simp
      show "0 \<le> 32 - r" "32 - r < 32" using rp by simp_all
    qed
    then have c: "- ((- len) div 32) = int (Suc k)" by simp
    have kl: "k < length a" using le lk(2) rp by simp
    then have ltk: "length (take (Suc k) a) = Suc k" by simp
    let ?x = "partial r (js_and (a ! k) (js_sar 0x80000000 (r - 1))) True"
    have t: "take (Suc k) a = take k a @ [a ! k]" using kl by (simp add: take_Suc_conv_app_nth)
    have sl: "js_slice a 0 (- ((- len) div 32)) = take k a @ [a ! k]"
      unfolding c using t by (simp only: js_slice_0[OF of_nat_0_le_iff] nat_int)
    have lu: "(take k a @ [a ! k])[k := z] = take k a @ [z]" for z
      using kl list_update_length[of "take k a" "a ! k" "[]" z] by simp
    have cl: "clamp a len = take k a @ [?x]"
      using nl False kl
      by (simp add: clamp_def Let_def sl js_and_31 r_def[symmetric] nth_append lu)
    have gx: "getPartial ?x = r" using rp by (simp add: getPartial_partial_end)
    have tx: "toW ?x = toW (a ! k) AND NOT (mask (nat (32 - r)))"
      using rp by (simp add: toW_himask)
    have nr: "nat (32 - r) = 32 - nat r" using rp by simp
    have wx: "wbits (toW ?x) = take (nat r) (wbits (toW (a ! k))) @ replicate (nat (32 - r)) False"
      using wbits_and_himask[of "nat r" "toW (a ! k)"] rp by (simp add: tx nr)
    have f: "list_all fullword (take k a)"
    proof -
      have "take k a = take k (butlast a)" using kl by (simp add: take_butlast)
      moreover have "list_all fullword (butlast a)" using wa by (simp add: wfb_def)
      ultimately show ?thesis by (auto simp: list_all_iff dest: in_set_takeD)
    qed
    have bs: "take (nat len) (bits a) = wordsbits (take k a) @ take (nat r) (wbits (toW (a ! k)))"
      using take_wordsbits[OF kl, of "nat r"] rp tk lk(1) by simp
    have wb: "wordsbits (take k a @ [?x]) = take (nat len) (bits a) @ replicate (nat (32 - r)) False"
      using wx bs by simp
    from wfI(1,2)[OF f gx rp(1) _ wb] rp show ?thesis by (simp add: cl)
  qed
qed

lemma bitSlice_spec:
  assumes "wfb a" "0 \<le> s" "s \<le> e" "e \<le> bitLength a"
  shows "wfb (bitSlice a s (Some e)) \<and> bits (bitSlice a s (Some e)) = take (nat (e - s)) (drop (nat s) (bits a))"
proof -
  have b: "bitSlice a s (Some e) = clamp (bitSlice a s None) (e - s)"
    by (simp add: bitSlice_def Let_def)
  have w: "wfb (bitSlice a s None)" and d: "bits (bitSlice a s None) = drop (nat s) (bits a)"
    using bitSlice_None_spec[OF assms(1,2)] by simp_all
  have "bitLength (bitSlice a s None) = int (length (drop (nat s) (bits a)))"
    using length_bits[OF w] d by simp
  also have "\<dots> = bitLength a - s" using length_bits[OF assms(1)] assms(2-4) by simp
  finally have "e - s \<le> bitLength (bitSlice a s None)" using assms by simp
  from clamp_spec[OF w _ this] assms(3) d show ?thesis by (simp add: b)
qed

subsection \<open>Hexadecimal strings and handles\<close>

lemma hexdigit_table: "list_all (\<lambda>d. hexval (hexdigit d) = Some d \<and> is_handle_char (hexdigit d)
    \<and> \<not> is_space (hexdigit d) \<and> hexdigit d \<noteq> CHR ''x'') [0..<16]"
  by code_simp

lemma hexdigit_props:
  "hexval (hexdigit d) = Some (d mod 16)" "is_hex (hexdigit d)" "is_handle_char (hexdigit d)"
  "\<not> is_space (hexdigit d)" "hexdigit d \<noteq> CHR ''x''"
proof -
  have m: "d mod 16 \<in> set [0..<16]" by simp
  have e: "hexdigit d = hexdigit (d mod 16)" by (simp add: hexdigit_def)
  from hexdigit_table m have
    "hexval (hexdigit (d mod 16)) = Some (d mod 16) \<and> is_handle_char (hexdigit (d mod 16))
     \<and> \<not> is_space (hexdigit (d mod 16)) \<and> hexdigit (d mod 16) \<noteq> CHR ''x''"
    unfolding list_all_iff by blast
  then show "hexval (hexdigit d) = Some (d mod 16)" "is_hex (hexdigit d)" "is_handle_char (hexdigit d)"
    "\<not> is_space (hexdigit d)" "hexdigit d \<noteq> CHR ''x''"
    using e by (simp_all add: is_hex_def)
qed

lemma hexstr_nat_props:
  "list_all (\<lambda>c. is_hex c \<and> \<not> is_space c \<and> c \<noteq> CHR ''x'') (hexstr_nat n) \<and> hexstr_nat n \<noteq> [] \<and>
   (\<forall>acc. hexdigits_value (hexstr_nat n @ rest) acc
       = hexdigits_value rest (acc * 16 ^ length (hexstr_nat n) + int n)) \<and>
   (n < 16 ^ k \<longrightarrow> 0 < k \<longrightarrow> length (hexstr_nat n) \<le> k)"
proof (induction n arbitrary: rest k rule: hexstr_nat.induct)
  case (1 n)
  show ?case
  proof (cases "n < 16")
    case True
    then have h: "hexstr_nat n = [hexdigit n]" by (subst hexstr_nat.simps) simp
    show ?thesis using True by (auto simp: h hexdigit_props)
  next
    case False
    then have h: "hexstr_nat n = hexstr_nat (n div 16) @ [hexdigit (n mod 16)]"
      by (subst hexstr_nat.simps) simp
    note ih = "1.IH"[OF False]
    have a: "list_all (\<lambda>c. is_hex c \<and> \<not> is_space c \<and> c \<noteq> CHR ''x'') (hexstr_nat n)"
      using ih[of "[]" 1] by (simp add: h hexdigit_props)
    have b: "hexdigits_value (hexstr_nat n @ rest) acc
       = hexdigits_value rest (acc * 16 ^ length (hexstr_nat n) + int n)" for acc
    proof -
      have "hexdigits_value (hexstr_nat n @ rest) acc
          = hexdigits_value (hexstr_nat (n div 16) @ (hexdigit (n mod 16) # rest)) acc"
        by (simp add: h)
      also have "\<dots> = hexdigits_value (hexdigit (n mod 16) # rest)
            (acc * 16 ^ length (hexstr_nat (n div 16)) + int (n div 16))"
        using ih[of "hexdigit (n mod 16) # rest" 1] by blast
      also have "\<dots> = hexdigits_value rest
            ((acc * 16 ^ length (hexstr_nat (n div 16)) + int (n div 16)) * 16 + int (n mod 16))"
        by (simp add: hexdigit_props)
      also have "(acc * 16 ^ length (hexstr_nat (n div 16)) + int (n div 16)) * 16 + int (n mod 16)
          = acc * 16 ^ length (hexstr_nat n) + int n"
        by (simp add: h algebra_simps zdiv_int zmod_int)
      finally show ?thesis .
    qed
    have c: "n < 16 ^ k \<longrightarrow> 0 < k \<longrightarrow> length (hexstr_nat n) \<le> k"
    proof (intro impI)
      assume n: "n < 16 ^ k" and k: "0 < k"
      then obtain j where j: "k = Suc j" by (cases k) simp_all
      have "j \<noteq> 0" using n False j by (cases j) simp_all
      moreover have "n div 16 < 16 ^ j" using n j by (simp add: less_mult_imp_div_less mult.commute)
      ultimately have "length (hexstr_nat (n div 16)) \<le> j" using ih[of "[]" j] by simp
      then show "length (hexstr_nat n) \<le> k" using j by (simp add: h)
    qed
    show ?thesis using a b c by (simp add: h)
  qed
qed


lemma hexdigits_value_zeros:
  "hexdigits_value (replicate m (CHR ''0'') @ rest) 0 = hexdigits_value rest 0"
  by (induction m) (simp_all add: hexval_def)

lemma list_all_replicate_append:
  "list_all P xs \<Longrightarrow> P z \<Longrightarrow> list_all P (replicate m z @ xs)"
  by (induction m) simp_all

lemma sprintf_0x8_props:
  assumes "0 \<le> n" "n < 0x100000000"
  shows "length (sprintf_0x 8 n) = 8"
    and "list_all (\<lambda>c. is_hex c \<and> \<not> is_space c \<and> c \<noteq> CHR ''x'') (sprintf_0x 8 n)"
    and "hexdigits_value (sprintf_0x 8 n) 0 = n"
proof -
  let ?d = "hexstr_nat (nat n)"
  have t: "toString16 n = ?d" using assms by (simp add: toString16_def)
  have "nat n < 16 ^ 8" using assms by simp
  then have l: "length ?d \<le> 8" using hexstr_nat_props[of "nat n" "[]" 8] by simp
  have a: "list_all (\<lambda>c. is_hex c \<and> \<not> is_space c \<and> c \<noteq> CHR ''x'') ?d"
    using hexstr_nat_props[of "nat n" "[]" 8] by simp
  have v: "hexdigits_value (?d @ []) 0 = int (nat n)"
    using hexstr_nat_props[of "nat n" "[]" 8] by simp
  have z: "is_hex (CHR ''0'') \<and> \<not> is_space (CHR ''0'') \<and> CHR ''0'' \<noteq> CHR ''x''"
    by code_simp
  have e: "sprintf_0x 8 n = replicate (8 - length ?d) (CHR ''0'') @ ?d"
    unfolding sprintf_0x_def t Let_def ..
  then show "length (sprintf_0x 8 n) = 8" using l by (simp only: length_append length_replicate)
  show "list_all (\<lambda>c. is_hex c \<and> \<not> is_space c \<and> c \<noteq> CHR ''x'') (sprintf_0x 8 n)"
    unfolding e
    by (rule list_all_replicate_append[where P="\<lambda>c. is_hex c \<and> \<not> is_space c \<and> c \<noteq> CHR ''x''", OF a z])
  have "int (nat n) = n" using assms(1) by simp
  then show "hexdigits_value (sprintf_0x 8 n) 0 = n"
    using v unfolding e hexdigits_value_zeros by (simp only: append_Nil2)
qed

lemma trim_id:
  assumes "list_all (\<lambda>c. \<not> is_space c) s"
  shows "trim s = s"
proof -
  have d: "dropWhile is_space t = t" if "list_all (\<lambda>c. \<not> is_space c) t" for t
    using that by (cases t) simp_all
  have "list_all (\<lambda>c. \<not> is_space c) (rev s)" using assms by (simp add: list_all_iff)
  then show ?thesis using d[of s] d[of "rev s"] assms by (simp add: trim_def)
qed

lemma inputToHexNum_sprintf:
  assumes "0 \<le> n" "n < 0x100000000"
  shows "inputToHexNum (Str (sprintf_0x 8 n)) = Inr n"
proof -
  let ?s = "sprintf_0x 8 n"
  note p = sprintf_0x8_props[OF assms]
  have sp: "list_all (\<lambda>c. \<not> is_space c) ?s" using p(2) by (simp add: list_all_iff)
  have hx: "list_all is_hex ?s" using p(2) by (simp add: list_all_iff)
  have ne: "?s \<noteq> []" using p(1) by auto
  have "take 2 ?s \<noteq> ''0x''"
  proof
    assume "take 2 ?s = ''0x''"
    then have "CHR ''x'' \<in> set (take 2 ?s)" by simp
    then have "CHR ''x'' \<in> set ?s" by (rule in_set_takeD)
    then show False using p(2) by (auto simp: list_all_iff)
  qed
  then have "strip0x (trim ?s) = ?s" using trim_id[OF sp] by (simp add: strip0x_def)
  then show ?thesis using hx ne p(3) by (simp add: inputToHexNum_def is_hex_string_def Let_def)
qed

lemma handle_tail_length:
  "handle_tail s = Some r \<Longrightarrow> length s = 10 \<or> length s = 20"
  by (auto simp: handle_tail_def Let_def split: if_splits)

lemma handle_tail_full:
  assumes "length i = 8" "list_all is_hex i" "length t = 8" "list_all is_hex t"
  shows "handle_tail (''00'' @ i @ ''00'' @ t) = Some (i, Some t)"
  using assms by (simp add: handle_tail_def Let_def)

lemma handle_match_prefix:
  assumes "k \<noteq> []" "list_all is_handle_char k" "handle_tail t = Some (i, ty)" "length t = 20"
  shows "handle_match acc (k @ t) = Some (acc @ k, i, ty)"
  using assms(1,2)
proof (induction k arbitrary: acc)
  case Nil
  then show ?case by simp
next
  case (Cons c k)
  show ?case
  proof (cases "k = []")
    case True
    then show ?thesis using Cons.prems assms(3) by simp
  next
    case False
    have "handle_tail (k @ t) = None"
    proof (rule ccontr)
      assume "handle_tail (k @ t) \<noteq> None"
      then obtain r where "handle_tail (k @ t) = Some r" by auto
      from handle_tail_length[OF this] assms(4) False show False by (cases k) simp_all
    qed
    then show ?thesis using Cons.IH[OF False, of "acc @ [c]"] Cons.prems by simp
  qed
qed

subsection \<open>The response parser\<close>

lemma bind_err_Inr [simp]: "bind_err (Inr x) f = f x" by (simp add: bind_err_def)
lemma bind_err_Inl [simp]: "bind_err (Inl e) f = Inl e" by (simp add: bind_err_def)

lemma cipher_crypt_xor: "cipher_crypt F (misc_xor c d) = Inr (of_block (F (to_block (misc_xor c d))))"
  by (simp add: cipher_crypt_def misc_xor_def)

lemma hmac_cbc_loop_Inr: "\<exists>c. hmac_cbc_loop F d bl i bp c0 = Inr c"
proof (induction F d bl i bp c0 rule: hmac_cbc_loop.induct)
  case (1 F data bl i bp c)
  show ?case
  proof (cases "bp + 128 \<le> bl")
    case True
    then show ?thesis
      using "1.IH"[OF True, of "of_block (F (to_block (misc_xor c (js_slice data i (i + 4)))))"]
      by (subst hmac_cbc_loop.simps) (simp add: cipher_crypt_xor)
  next
    case False
    then show ?thesis by (subst hmac_cbc_loop.simps) simp
  qed
qed

lemma hmac_cbc_mac_Inr: "\<exists>c. hmac_cbc_mac F d = Inr c"
  by (simp add: hmac_cbc_mac_def hmac_cbc_loop_Inr)

lemma parse_unfold:
  assumes "parseInt16 (status data) = Some 0x9000" "function_name data \<noteq> []"
    and "inputToBits aesKey0 = Inr ak" "inputToBits macKey0 = Inr mk"
    and "length ak = 4 \<or> length ak = 6 \<or> length ak = 8"
    and "length mk = 4 \<or> length mk = 6 \<or> length mk = 8"
    and "hmac_cbc_mac (E (map toW mk)) (response_ct data) = Inr cmac"
  shows "parse E D aesKey0 macKey0 data =
     (if js_and (bitLength (response_ct data)) 127 \<noteq> 0 then Inl (Corrupt ''Padding size invalid'')
      else if bitLength (response_tag data) \<noteq> 16 * 8 then Inl (Corrupt ''MAC corrupted'')
      else if \<not> equal_bits (response_tag data) cmac then Inl (Corrupt ''Padding is not valid'')
      else parse_decrypt (D (map toW ak)) (verified_response data cmac) (response_ct data)
             (response_plainBits data))"
proof -
  have st: "status data \<noteq> []" using assms(1) by (auto simp: parseInt16_def Let_def)
  have na: "new_aes ak = Inr (map toW ak)" "new_aes mk = Inr (map toW mk)"
    using assms(5,6) by (auto simp: new_aes_def)
  have hd: "parseCommonHeaders new_processDataResponse data
      = Inr (new_processDataResponse\<lparr>statusCode := Some 0x9000, statusDetail := statusdetail data,
        function_field := function_name data, result_field := result data\<rparr>)"
    using assms(1,2) st by (simp add: parseCommonHeaders_def)
  show ?thesis
    unfolding parse_def hd bind_err_Inr
    using assms(3,4,7) na
    by (simp add: isCodeOk_def response_ct_def response_tag_def response_protectedBits_def
        response_plainBits_def Let_def verified_response_def)
qed

lemma parse_decrypt_mac:
  "parse_decrypt Daes r2 ct pb = Inr r \<Longrightarrow> mac r = mac r2 \<and> computedMac r = computedMac r2"
  by (auto simp: parse_decrypt_def Let_def bind_err_def split: if_splits sum.splits)

lemma bad_tag_ct: "response_ct response_bad_tag = [0x00112233, 0x44556677, - 0x77665545, - 0x33221101]"
  by code_simp

lemma bad_tag_tag: "response_tag response_bad_tag = [0x00112233, 0x44556677, - 0x77665545, - 0x33221102]"
  by code_simp


lemma bad_tag_mac: "hmac_cbc_mac (\<lambda>b. b) [0x00112233, 0x44556677, - 0x77665545, - 0x33221101]
   = Inr [0x00112233, 0x44556677, - 0x77665545, - 0x33221101]"
  by code_simp

lemma bad_tag_neq: "\<not> equal_bits [0x00112233, 0x44556677, - 0x77665545, - 0x33221102]
    [0x00112233, 0x44556677, - 0x77665545, - 0x33221101]"
  by code_simp

lemma bad_tag_status: "parseInt16 (status response_bad_tag) = Some 0x9000" "function_name response_bad_tag \<noteq> []"
  by (simp_all add: response_bad_tag_def parseInt16_def is_space_def is_hex_def hexval_def)

subsection \<open>Splicing\<close>

lemma replacePart_spec:
  assumes "wfb buffer" "wfb replacement" "0 \<le> s" "s \<le> bitLength buffer" "0 \<le> e"
  shows "wfb (replacePart buffer s e replacement) \<and>
         bits (replacePart buffer s e replacement)
           = take (nat s) (bits buffer) @ bits replacement @ drop (nat e) (bits buffer)"
proof -
  have a: "wfb (bitSlice buffer 0 (Some s))" "bits (bitSlice buffer 0 (Some s)) = take (nat s) (bits buffer)"
    using bitSlice_spec[where s=0 and e=s, OF assms(1)] assms(3,4) by simp_all
  have b: "wfb (bitSlice buffer e None)" "bits (bitSlice buffer e None) = drop (nat e) (bits buffer)"
    using bitSlice_None_spec[OF assms(1,5)] by simp_all
  have c: "wfb (concat_bits (bitSlice buffer 0 (Some s)) replacement)"
    "bits (concat_bits (bitSlice buffer 0 (Some s)) replacement) = take (nat s) (bits buffer) @ bits replacement"
    using concat_spec[OF a(1) assms(2)] a(2) by simp_all
  show ?thesis using concat_spec[OF c(1) b(1)] c(2) b(2) by (simp add: replacePart_def Let_def)
qed

lemma transformPart_spec:
  assumes "wfb buffer" "0 \<le> s" "s \<le> bitLength buffer" "0 \<le> e"
    and "wfb (fction (bitSlice buffer s (Some e)))"
  shows "wfb (transformPart buffer s e fction) \<and>
         bits (transformPart buffer s e fction)
           = take (nat s) (bits buffer) @ bits (fction (bitSlice buffer s (Some e)))
             @ drop (nat e) (bits buffer)"
proof -
  have a: "wfb (bitSlice buffer 0 (Some s))" "bits (bitSlice buffer 0 (Some s)) = take (nat s) (bits buffer)"
    using bitSlice_spec[where s=0 and e=s, OF assms(1)] assms(2,3) by simp_all
  have b: "wfb (bitSlice buffer e None)" "bits (bitSlice buffer e None) = drop (nat e) (bits buffer)"
    using bitSlice_None_spec[OF assms(1,4)] by simp_all
  let ?r = "fction (bitSlice buffer s (Some e))"
  have c: "wfb (concat_bits (bitSlice buffer 0 (Some s)) ?r)"
    "bits (concat_bits (bitSlice buffer 0 (Some s)) ?r) = take (nat s) (bits buffer) @ bits ?r"
    using concat_spec[OF a(1) assms(5)] a(2) by simp_all
  show ?thesis using concat_spec[OF c(1) b(1)] c(2) b(2) by (simp add: transformPart_def Let_def)
qed

lemma splice_frame:
  assumes "s \<le> e" "e \<le> length xs" "length r = e - s"
  shows "length (take s xs @ r @ drop e xs) = length xs"
    and "i < s \<Longrightarrow> (take s xs @ r @ drop e xs) ! i = xs ! i"
    and "e \<le> i \<Longrightarrow> i < length xs \<Longrightarrow> (take s xs @ r @ drop e xs) ! i = xs ! i"
proof -
  show "length (take s xs @ r @ drop e xs) = length xs" using assms by simp
  show "i < s \<Longrightarrow> (take s xs @ r @ drop e xs) ! i = xs ! i"
    using assms by (simp add: nth_append)
  show "(take s xs @ r @ drop e xs) ! i = xs ! i" if "e \<le> i" "i < length xs"
  proof -
    have "\<not> i < s" "\<not> i - s < e - s" "e + (i - s - (e - s)) = i" using that assms by simp_all
    then show ?thesis using assms that by (simp add: nth_append min_def)
  qed
qed

lemma getPartial_partial_start:
  assumes "1 \<le> len" "len \<le> 31"
  shows "getPartial (partial len x False) = len"
proof -
  have "- 0x80000000 \<le> js_shl x (32 - len)" "js_shl x (32 - len) < 0x80000000"
    using sint32_range[of "push_bit (nat ((32 - len) mod 32)) (toW x)"] by (simp_all add: js_shl_def)
  then show ?thesis using assms by (simp add: partial_def getPartial_add)
qed

lemma toW_partial_start:
  assumes "1 \<le> len" "len \<le> 31"
  shows "toW (partial len x False) = push_bit (nat (32 - len)) (toW x)"
proof -
  have "0 \<le> 32 - len" "32 - len < 32" using assms by simp_all
  then have "(32 - len) mod 32 = 32 - len" by (rule mod_pos_pos_trivial)
  then have "js_shl x (32 - len) = sint (push_bit (nat (32 - len)) (toW x))"
    by (simp only: js_shl_def)
  then show ?thesis using assms by (simp add: partial_def)
qed

lemma partial_start_spec:
  assumes "1 \<le> len" "len \<le> 31"
  shows "wfb [partial len x False]"
    and "bits [partial len x False] = drop (nat (32 - len)) (wbits (toW x))"
    and "bitLength [partial len x False] = len"
proof -
  have n: "nat (32 - len) \<le> 32" "32 - nat (32 - len) = nat len" using assms by simp_all
  have w: "wbits (toW (partial len x False)) = drop (nat (32 - len)) (wbits (toW x)) @ replicate (nat (32 - len)) False"
    using wbits_push[OF n(1), of "toW x"] by (simp add: toW_partial_start[OF assms])
  have wb: "wordsbits ([] @ [partial len x False])
      = drop (nat (32 - len)) (wbits (toW x)) @ replicate (nat (32 - len)) False"
    using w by simp
  have l32: "len \<le> 32" using assms by simp
  have f: "list_all fullword []" by simp
  from wfI[OF f getPartial_partial_start[OF assms] assms(1) l32 wb]
  show "wfb [partial len x False]"
    and "bits [partial len x False] = drop (nat (32 - len)) (wbits (toW x))"
    and "bitLength [partial len x False] = len"
    by simp_all
qed

lemma reset_flags_wfb: "wfb (reset_flags app x)" "length (bits (reset_flags app x)) = 8"
  using partial_start_spec(1,2)[of 8] by (simp_all add: reset_flags_def Let_def)


lemma replacePart_frame:
  assumes "wfb buffer" "wfb r" "0 \<le> s" "0 \<le> len" "s + len \<le> bitLength buffer" "bitLength r = len"
  shows "wfb (replacePart buffer s (s + len) r)"
    and "bitLength (replacePart buffer s (s + len) r) = bitLength buffer"
    and "i < length (bits buffer) \<Longrightarrow> \<not> (s \<le> int i \<and> int i < s + len)
         \<Longrightarrow> bits (replacePart buffer s (s + len) r) ! i = bits buffer ! i"
proof -
  let ?xs = "bits buffer"
  have lb: "int (length ?xs) = bitLength buffer" using length_bits[OF assms(1)] .
  have lr: "int (length (bits r)) = len" using length_bits[OF assms(2)] assms(6) by simp
  have sp: "wfb (replacePart buffer s (s + len) r)"
    "bits (replacePart buffer s (s + len) r) = take (nat s) ?xs @ bits r @ drop (nat (s + len)) ?xs"
    using replacePart_spec[OF assms(1,2,3), of "s + len"] assms(3,4,5) by simp_all
  have c: "nat s \<le> nat (s + len)" "nat (s + len) \<le> length ?xs" "length (bits r) = nat (s + len) - nat s"
    using assms(3,4,5) lb lr by linarith+
  show "wfb (replacePart buffer s (s + len) r)" by (rule sp(1))
  have "length (bits (replacePart buffer s (s + len) r)) = length ?xs"
    unfolding sp(2) by (rule splice_frame(1)[OF c])
  then show "bitLength (replacePart buffer s (s + len) r) = bitLength buffer"
    using length_bits[OF sp(1)] lb by simp
  show "bits (replacePart buffer s (s + len) r) ! i = ?xs ! i"
    if "i < length ?xs" "\<not> (s \<le> int i \<and> int i < s + len)"
  proof (cases "int i < s")
    case True
    then have "i < nat s" using assms(3) by linarith
    then show ?thesis unfolding sp(2) by (rule splice_frame(2)[OF c])
  next
    case False
    then have "nat (s + len) \<le> i" using that(2) by linarith
    then show ?thesis unfolding sp(2) using that(1) by (rule splice_frame(3)[OF c])
  qed
qed

lemma fill_keys_frame:
  assumes "wfb ba"
    and "\<forall>ko \<in> set kos. spliced keys ko \<longrightarrow> 0 \<le> ko_offset ko \<and> 0 \<le> ko_length ko
            \<and> ko_offset ko + ko_length ko \<le> bitLength ba"
    and "\<forall>ko \<in> set kos. spliced keys ko \<longrightarrow>
           (\<forall>k kv. keys (ko_type ko) = Some k \<longrightarrow> inputToBits k = Inr kv \<longrightarrow> wfb kv)"
    and "fill_keys keys kos (ba, app) = Inr (ba', app')"
  shows "wfb ba' \<and> bitLength ba' = bitLength ba \<and>
         (\<forall>i < length (bits ba). outside_slots keys kos i \<longrightarrow> bits ba' ! i = bits ba ! i)"
  using assms
proof (induction kos arbitrary: ba app)
  case Nil
  then show ?case by simp
next
  case (Cons ko kos)
  have rest: "\<forall>ko \<in> set kos. spliced keys ko \<longrightarrow>
           (\<forall>k kv. keys (ko_type ko) = Some k \<longrightarrow> inputToBits k = Inr kv \<longrightarrow> wfb kv)"
    using Cons.prems(3) by simp
  have rng: "\<forall>ko \<in> set kos. spliced keys ko \<longrightarrow> 0 \<le> ko_offset ko \<and> 0 \<le> ko_length ko
            \<and> ko_offset ko + ko_length ko \<le> bitLength ba"
    using Cons.prems(2) by simp
  have os: "outside_slots keys (ko # kos) i \<Longrightarrow> outside_slots keys kos i" for i
    by (simp add: outside_slots_def)
  show ?case
  proof (cases "ko_type ko = [] \<or> keys (ko_type ko) = None")
    case True
    then have "fill_keys keys kos (ba, app) = Inr (ba', app')" using Cons.prems(4) by auto
    from Cons.IH[OF Cons.prems(1) rng rest this] show ?thesis using os by blast
  next
    case False
    then obtain k where k: "keys (ko_type ko) = Some k" by auto
    show ?thesis
    proof (cases "inputToBits k")
      case (Inl e)
      then show ?thesis using Cons.prems(4) False k by simp
    next
      case (Inr kv)
      show ?thesis
      proof (cases "bitLength kv \<noteq> ko_length ko")
        case True
        then have "fill_keys keys kos (ba, app) = Inr (ba', app')"
          using Cons.prems(4) False k Inr by simp
        from Cons.IH[OF Cons.prems(1) rng rest this] show ?thesis using os by blast
      next
        case eq: False
        have sp: "spliced keys ko" using False k Inr eq by (simp add: spliced_def)
        have wkv: "wfb kv" using Cons.prems(3) sp k Inr by simp
        let ?b = "replacePart ba (ko_offset ko) (ko_offset ko + ko_length ko) kv"
        have f: "fill_keys keys kos (?b, app \<or> ko_type ko = ''app'') = Inr (ba', app')"
          using Cons.prems(4) False k Inr eq by simp
        have r: "0 \<le> ko_offset ko" "0 \<le> ko_length ko" "ko_offset ko + ko_length ko \<le> bitLength ba"
          using Cons.prems(2) sp by simp_all
        have bl: "bitLength kv = ko_length ko" using eq by simp
        note fr = replacePart_frame[OF Cons.prems(1) wkv r bl]
        have rng': "\<forall>ko \<in> set kos. spliced keys ko \<longrightarrow> 0 \<le> ko_offset ko \<and> 0 \<le> ko_length ko
            \<and> ko_offset ko + ko_length ko \<le> bitLength ?b"
          using rng fr(2) by simp
        from Cons.IH[OF fr(1) rng' rest f]
        have ih: "wfb ba'" "bitLength ba' = bitLength ?b"
          "\<forall>i < length (bits ?b). outside_slots keys kos i \<longrightarrow> bits ba' ! i = bits ?b ! i"
          by simp_all
        have len: "length (bits ?b) = length (bits ba)"
          using length_bits[OF fr(1)] length_bits[OF Cons.prems(1)] fr(2) by simp
        have "bits ba' ! i = bits ba ! i"
          if "i < length (bits ba)" "outside_slots keys (ko # kos) i" for i
        proof -
          have "\<not> (ko_offset ko \<le> int i \<and> int i < ko_offset ko + ko_length ko)"
            using that(2) sp by (simp add: outside_slots_def)
          from fr(3)[OF that(1) this] ih(3) that os len show ?thesis by simp
        qed
        then show ?thesis using ih(1,2) fr(2) by simp
      qed
    qed
  qed
qed


lemma example_blob: "inputToBits (Str ''00ff0000aabbccdd0011'') = Inr [0x00ff0000, - 1430532899, 17592187158528]"
  by code_simp

lemma example_fill: "fill_keys example_keys (keyoffsets example_template)
    ([0x00ff0000, - 1430532899, 17592187158528], False)
   = Inr ([0x00ff0000, 0x01020304, 17592187158528], False)"
  by code_simp

lemma example_flag: "transformPart [0x00ff0000, 0x01020304, 17592187158528] 8 16 (reset_flags False)
   = [0x00f70000, 0x01020304, 17592187158528]"
  by code_simp

lemma example_patch: "patch_template example_template example_keys
   = Inr [0x00f70000, 0x01020304, 17592187158528]"
proof -
  have t: "template example_template = Str ''00ff0000aabbccdd0011''" "flagoffset example_template = 0"
    by (simp_all add: example_template_def)
  show ?thesis
    by (simp add: patch_template_def t example_blob example_fill example_flag)
qed


lemma example_blob_wfb: "wfb [0x00ff0000, - 1430532899, 17592187158528]"
  "bitLength [0x00ff0000, - 1430532899, 17592187158528] = 80"
  by code_simp+

lemma example_key_bits:
  "inputToBits (Str ''01020304'') = Inr [0x01020304]" "inputToBits (Str ''05060708'') = Inr [0x05060708]"
  "wfb [0x01020304]" "wfb [0x05060708]"
  by code_simp+

subsection \<open>Evaluation of the bitwise operators on numbers\<close>

lemma sint_word_of_int32: "sint (word_of_int x :: 32 word) = s32 x"
  by (simp add: int_word_sint s32_def)

lemma js_or_eval: "js_or a b = s32 (a OR b)"
  by (simp add: js_or_def toW_def sint_word_of_int32 flip: of_int_or_eq)

lemma js_and_eval: "js_and a b = s32 (a AND b)"
  by (simp add: js_and_def toW_def sint_word_of_int32 flip: of_int_and_eq)

lemma js_xor_eval: "js_xor a b = s32 (a XOR b)"
  by (simp add: js_xor_def toW_def sint_word_of_int32 flip: of_int_xor_eq)

lemma js_not_eval: "js_not a = s32 (- a - 1)"
proof -
  have "NOT (word_of_int a :: 32 word) = word_of_int (- a - 1)"
    by (simp add: not_eq_complement)
  then show ?thesis by (simp only: js_not_def toW_def sint_word_of_int32)
qed

lemma js_shl_eval: "js_shl a n = s32 (a * 2 ^ nat (n mod 32))"
proof -
  have "push_bit (nat (n mod 32)) (word_of_int a :: 32 word) = word_of_int (a * 2 ^ nat (n mod 32))"
    by (simp add: push_bit_eq_mult)
  then show ?thesis by (simp only: js_shl_def toW_def sint_word_of_int32)
qed

lemma js_shr_eval: "js_shr a n = (a mod 0x100000000) div 2 ^ nat (n mod 32)"
proof -
  have "uint (drop_bit (nat (n mod 32)) (word_of_int a :: 32 word))
      = drop_bit (nat (n mod 32)) (take_bit 32 (uint (word_of_int a :: 32 word)))"
    using unsigned_drop_bit_eq[of "nat (n mod 32)" "word_of_int a :: 32 word", where ?'a=int] by simp
  also have "\<dots> = (a mod 0x100000000) div 2 ^ nat (n mod 32)"
    by (simp add: uint_word_of_int drop_bit_eq_div take_bit_eq_mod)
  finally show ?thesis by (simp only: js_shr_def toW_def)
qed

lemma js_sar_eval: "js_sar a n = s32 a div 2 ^ nat (n mod 32)"
  by (simp add: js_sar_def toW_def sint_signed_drop_bit_eq drop_bit_eq_div sint_word_of_int32)

lemmas js_eval = js_or_eval js_and_eval js_xor_eval js_not_eval js_shl_eval js_shr_eval js_sar_eval
  s32_def

subsection \<open>PKCS#7 padding\<close>

lemma s32_id: "- 0x80000000 \<le> x \<Longrightarrow> x < 0x80000000 \<Longrightarrow> s32 x = x"
  by (simp add: s32_def)

lemma js_sar_nonneg:
  assumes "0 \<le> x" "x < 0x80000000" "0 \<le> n" "n < 32"
  shows "js_sar x n = x div 2 ^ nat n"
  using assms by (simp add: js_sar_eval s32_id)

lemma js_shl_small:
  assumes "0 \<le> x" "x * 2 ^ nat n < 0x80000000" "0 \<le> n" "n < 32"
  shows "js_shl x n = x * 2 ^ nat n"
proof -
  have "- 0x80000000 \<le> x * 2 ^ nat n" using assms(1) by (simp add: order_trans[of _ 0])
  then show ?thesis using assms by (simp add: js_shl_eval s32_id)
qed

lemma padfill_table:
  "list_all (\<lambda>k. wbits (toW (k * 0x1010101)) = bytes_bits (replicate 4 (word_of_int k))) [1..16]"
  by code_simp

lemma padfill_bits:
  assumes "1 \<le> k" "k \<le> 16"
  shows "wbits (toW (k * 0x1010101)) = bytes_bits (replicate 4 (word_of_int k))"
proof -
  have "k \<in> set [1..16]" using assms by simp
  then show ?thesis using padfill_table unfolding list_all_iff by blast
qed

lemma take_words_spec:
  assumes "wfb c" "0 \<le> n" "32 * n \<le> bitLength c"
  shows "js_slice c 0 n = take (nat n) c" "wfb (take (nat n) c)"
    "bits (take (nat n) c) = take (32 * nat n) (bits c)"
proof -
  show s: "js_slice c 0 n = take (nat n) c" using assms(2) by (rule js_slice_0)
  have l: "\<not> int (length c) * 32 < 32 * n" using assms(3) bitLength_le[OF assms(1)] by simp
  have "- ((- (32 * n)) div 32) = n" by simp
  then have "clamp c (32 * n) = take (nat n) c"
    using l s by (simp add: clamp_def Let_def js_and_31)
  moreover have "0 \<le> 32 * n" using assms(2) by simp
  moreover have "nat (32 * n) = 32 * nat n" using assms(2) by (simp add: nat_mult_distrib)
  ultimately show "wfb (take (nat n) c)" "bits (take (nat n) c) = take (32 * nat n) (bits c)"
    using clamp_spec[OF assms(1) _ assms(3)] by simp_all
qed


lemma length_byte_bits [simp]: "length (byte_bits b) = 8"
  by (simp add: byte_bits_def)

lemma length_bytes_bits [simp]: "length (bytes_bits bs) = 8 * length bs"
  by (induction bs) (simp_all add: bytes_bits_def)

lemma bytes_bits_Nil [simp]: "bytes_bits [] = []" by (simp add: bytes_bits_def)
lemma bytes_bits_Cons [simp]: "bytes_bits (b # bs) = byte_bits b @ bytes_bits bs"
  by (simp add: bytes_bits_def)
lemma bytes_bits_append [simp]: "bytes_bits (xs @ ys) = bytes_bits xs @ bytes_bits ys"
  by (simp add: bytes_bits_def)

lemma take_bytes_bits: "take (8 * j) (bytes_bits bs) = bytes_bits (take j bs)"
proof (induction bs arbitrary: j)
  case Nil
  then show ?case by simp
next
  case (Cons b bs)
  then show ?case by (cases j) simp_all
qed

lemma drop_bytes_bits: "drop (8 * j) (bytes_bits bs) = bytes_bits (drop j bs)"
proof (induction bs arbitrary: j)
  case Nil
  then show ?case by simp
next
  case (Cons b bs)
  then show ?case by (cases j) simp_all
qed

lemma fullword_small: "0 \<le> x \<Longrightarrow> x < 0x80000000 \<Longrightarrow> fullword x"
  by (simp add: fullword_def getPartial_range)

lemma padwords_spec:
  assumes "1 \<le> k" "k \<le> 16"
  shows "wfb [k * 0x1010101, k * 0x1010101, k * 0x1010101, k * 0x1010101]"
    and "bits [k * 0x1010101, k * 0x1010101, k * 0x1010101, k * 0x1010101]
           = bytes_bits (replicate 16 (word_of_int k))"
    and "bitLength [k * 0x1010101, k * 0x1010101, k * 0x1010101, k * 0x1010101] = 128"
proof -
  let ?pf = "k * 0x1010101"
  have "fullword ?pf" using assms by (intro fullword_small) simp_all
  then have f: "list_all fullword [?pf, ?pf, ?pf, ?pf]" by simp
  have r: "replicate 16 (word_of_int k :: 8 word)
      = replicate 4 (word_of_int k) @ replicate 4 (word_of_int k) @ replicate 4 (word_of_int k)
        @ replicate 4 (word_of_int k)"
    by (simp add: replicate_add[symmetric])
  show "wfb [?pf, ?pf, ?pf, ?pf]" using wfb_full(1)[OF f] .
  show "bits [?pf, ?pf, ?pf, ?pf] = bytes_bits (replicate 16 (word_of_int k))"
    unfolding wfb_full(2)[OF f] r bytes_bits_append by (simp add: padfill_bits[OF assms])
  show "bitLength [?pf, ?pf, ?pf, ?pf] = 128" using wfb_full(3)[OF f] by simp
qed

lemma pkcs7_blocklen_None [simp]: "pkcs7_blocklen None = Inr ()"
  by (simp add: pkcs7_blocklen_def js_and_15)

lemma pkcs7_pad_spec:
  assumes "wfb a" "bitLength a mod 8 = 0" "bitLength a < 0x7fffff00"
  shows "\<exists>p. pkcs7_pad a None = Inr p \<and> wfb p \<and>
           bits p = bits a @ bytes_bits (replicate (nat (16 - (bitLength a div 8) mod 16))
                                          (word_of_int (16 - (bitLength a div 8) mod 16))) \<and>
           bitLength p = 8 * (bitLength a div 8 + (16 - (bitLength a div 8) mod 16))"
proof -
  define bl where "bl = bitLength a"
  define n where "n = bl div 8"
  define k where "k = 16 - n mod 16"
  have bl0: "0 \<le> bl" using bitLength_nonneg[OF assms(1)] by (simp add: bl_def)
  have bln: "bl = 8 * n" using assms(2) unfolding n_def bl_def by presburger
  have n0: "0 \<le> n" using bl0 by (simp add: n_def)
  have k: "1 \<le> k" "k \<le> 16" by (simp_all add: k_def)
  have s3: "js_sar bl 3 = n" using bl0 assms(3) js_sar_nonneg[of bl 3] by (simp add: n_def bl_def)
  have pl: "16 - js_and (js_sar bl 3) 15 = k" by (simp add: s3 js_and_15 k_def)
  define m where "m = (n + k) div 4"
  have nk16: "(n + k) mod 16 = 0"
    unfolding k_def by presburger
  then have "(n + k) mod 4 = 0" by presburger
  then have m4: "4 * m = n + k" unfolding m_def by presburger
  have m0: "0 \<le> m" using n0 k by (simp add: m_def)
  have "n + k < 0x80000000" using assms(3) bln k bl_def by simp
  then have "js_sar (n + k) 2 = m"
    using js_sar_nonneg[of "n + k" 2] n0 k by (simp add: m_def)
  then have s2: "js_sar (js_sar bl 3 + k) 2 = m" by (simp only: s3)
  let ?pf = "k * 0x1010101"
  let ?pw = "[?pf, ?pf, ?pf, ?pf]"
  let ?c = "concat_bits a ?pw"
  note pw = padwords_spec[OF k]
  from concat_spec[OF assms(1) pw(1)]
  have c: "wfb ?c" "bits ?c = bits a @ bytes_bits (replicate 16 (word_of_int k))"
    "bitLength ?c = bl + 128"
    by (simp_all add: pw bl_def)
  have le: "32 * m \<le> bitLength ?c" using c(3) m4 bln k by simp
  note tw = take_words_spec[OF c(1) m0 le]
  have pad: "pkcs7_pad a None = Inr (take (nat m) ?c)"
    by (simp only: pkcs7_pad_def Let_def bl_def[symmetric] pl s2 tw(1) pkcs7_blocklen_None
        bind_err_Inr)
  have la: "length (bits a) = 8 * nat n" using length_bits[OF assms(1)] bln n0 bl_def by simp
  have "32 * nat m = length (bits a) + 8 * nat k" using la m4 m0 n0 k by linarith
  then have "take (32 * nat m) (bits ?c)
      = bits a @ take (8 * nat k) (bytes_bits (replicate 16 (word_of_int k)))"
    unfolding c(2) by simp
  also have "take (8 * nat k) (bytes_bits (replicate 16 (word_of_int k :: 8 word)))
      = bytes_bits (replicate (nat k) (word_of_int k))"
  proof -
    have "nat k \<le> 16" using k by simp
    then show ?thesis by (simp add: take_bytes_bits min_def)
  qed
  finally have b: "bits (take (nat m) ?c) = bits a @ bytes_bits (replicate (nat k) (word_of_int k))"
    using tw(3) by simp
  have "int (length (bits (take (nat m) ?c))) = 8 * (n + k)"
    unfolding b using la n0 k by simp
  then have bl': "bitLength (take (nat m) ?c) = 8 * (n + k)"
    using length_bits[OF tw(2)] by simp
  show ?thesis
    using pad tw(2) b bl' by (simp add: k_def n_def bl_def)
qed


subsection \<open>Comparison of bit arrays\<close>

lemma wbits_inj: "wbits v = wbits w \<Longrightarrow> v = w"
proof (rule bit_word_eqI)
  fix n assume e: "wbits v = wbits w" and n: "n < LENGTH(32)"
  then have "wbits v ! (31 - n) = wbits w ! (31 - n)" by simp
  moreover have "31 - n < 32" "31 - (31 - n) = n" using n by simp_all
  ultimately show "bit v n = bit w n" by (simp add: nth_wbits)
qed

lemma wordsbits_inj:
  "length a = length b \<Longrightarrow> wordsbits a = wordsbits b \<longleftrightarrow> map toW a = map toW b"
proof (induction a arbitrary: b)
  case Nil
  then show ?case by simp
next
  case (Cons x a)
  then obtain y b' where b: "b = y # b'" by (cases b) simp_all
  have "wbits (toW x) @ wordsbits a = wbits (toW y) @ wordsbits b'
     \<longleftrightarrow> wbits (toW x) = wbits (toW y) \<and> wordsbits a = wordsbits b'"
    by simp
  then show ?case using Cons b by (auto dest: wbits_inj)
qed

lemma equal_loop_range:
  "- 0x80000000 \<le> x \<Longrightarrow> x < 0x80000000 \<Longrightarrow>
   - 0x80000000 \<le> equal_loop a b x \<and> equal_loop a b x < 0x80000000"
proof (induction a arbitrary: b x)
  case Nil
  then show ?case by simp
next
  case (Cons ai a)
  show ?case unfolding equal_loop.simps
    by (rule Cons.IH) (simp_all add: js_or_def sint32_range)
qed

lemma xor_zero_iff: "(u :: 32 word) XOR v = 0 \<longleftrightarrow> u = v"
proof
  assume "u XOR v = 0"
  then have "(u XOR v) XOR v = v" by simp
  moreover have "(u XOR v) XOR v = u" by (simp add: xor.assoc)
  ultimately show "u = v" by simp
qed simp

lemma equal_loop_toW:
  "length a = length b \<Longrightarrow>
   toW (equal_loop a b x) = 0 \<longleftrightarrow> toW x = 0 \<and> map toW a = map toW b"
proof (induction a arbitrary: b x)
  case Nil
  then show ?case by simp
next
  case (Cons ai a)
  then obtain y b' where b: "b = y # b'" by (cases b) simp_all
  show ?case using Cons.IH[of b'] Cons.prems b by (simp add: or_eq_0_iff xor_zero_iff)
qed

lemma equal_loop_zero:
  assumes "length a = length b"
  shows "equal_loop a b 0 = 0 \<longleftrightarrow> map toW a = map toW b"
proof -
  have r: "- 0x80000000 \<le> equal_loop a b 0 \<and> equal_loop a b 0 < 0x80000000"
    by (rule equal_loop_range) simp_all
  have "equal_loop a b 0 = 0 \<longleftrightarrow> toW (equal_loop a b 0) = 0"
  proof
    assume "toW (equal_loop a b 0) = 0"
    then have "sint (toW (equal_loop a b 0)) = 0" by simp
    then show "equal_loop a b 0 = 0" using r by (simp add: sint_toW)
  qed simp
  then show ?thesis using equal_loop_toW[OF assms, of 0] by simp
qed

lemma wfb_length:
  assumes "wfb a"
  shows "int (length a) = (bitLength a + 31) div 32"
proof (cases "a = []")
  case True
  then show ?thesis by simp
next
  case False
  note d = wfD[OF assms False]
  have "bitLength a = (int (length a) - 1) * 32 + getPartial (last a)"
    using False by (simp add: bitLength_def)
  then have "bitLength a + 31 = (getPartial (last a) - 1) + int (length a) * 32" by simp
  then have "(bitLength a + 31) div 32 = int (length a) + (getPartial (last a) - 1) div 32"
    by (simp only: div_mult_self1)
  moreover have "(getPartial (last a) - 1) div 32 = 0"
    using d(3,4) by (intro div_pos_pos_trivial) simp_all
  ultimately show ?thesis by simp
qed

lemma equal_bits_spec:
  assumes "wfb a" "wfb b"
  shows "equal_bits a b \<longleftrightarrow> bits a = bits b"
proof
  assume e: "equal_bits a b"
  then have bl: "bitLength a = bitLength b" and z: "equal_loop a b 0 = 0"
    by (simp_all add: equal_bits_def split: if_splits)
  have len: "length a = length b"
    using wfb_length[OF assms(1)] wfb_length[OF assms(2)] bl by simp
  have "wordsbits a = wordsbits b" using z equal_loop_zero[OF len] wordsbits_inj[OF len] by simp
  then show "bits a = bits b"
    using bits_take_wordsbits[OF assms(1)] bits_take_wordsbits[OF assms(2)] bl by simp
next
  assume e: "bits a = bits b"
  have bl: "bitLength a = bitLength b"
    using length_bits[OF assms(1)] length_bits[OF assms(2)] e by simp
  have len: "length a = length b"
    using wfb_length[OF assms(1)] wfb_length[OF assms(2)] bl by simp
  have "wordsbits a = wordsbits b"
  proof (cases "a = []")
    case True
    then show ?thesis using len by simp
  next
    case False
    then have nb: "b \<noteq> []" using len by auto
    have "getPartial (last a) = getPartial (last b)"
      using bl len False nb by (simp add: bitLength_def)
    then show ?thesis using wfD(1)[OF assms(1) False] wfD(1)[OF assms(2) nb] e by simp
  qed
  then have "equal_loop a b 0 = 0" using equal_loop_zero[OF len] wordsbits_inj[OF len] by simp
  then show "equal_bits a b" using bl by (simp add: equal_bits_def)
qed


subsection \<open>Removing the PKCS#7 padding\<close>

lemma byte_bits_inj: "byte_bits v = byte_bits w \<Longrightarrow> v = w"
proof (rule bit_word_eqI)
  fix n assume e: "byte_bits v = byte_bits w" and n: "n < LENGTH(8)"
  then have "byte_bits v ! (7 - n) = byte_bits w ! (7 - n)" by simp
  moreover have "7 - n < 8" "7 - (7 - n) = n" using n by simp_all
  ultimately show "bit v n = bit w n" by (simp add: byte_bits_def)
qed

lemma drop24_wbits: "drop 24 (wbits w) = byte_bits (ucast w)"
proof (rule nth_equalityI)
  show "length (drop 24 (wbits w)) = length (byte_bits (ucast w :: 8 word))" by simp
next
  fix i assume "i < length (drop 24 (wbits w))"
  then have i: "i < 8" by simp
  then have "drop 24 (wbits w) ! i = bit w (7 - i)" by (simp add: nth_wbits)
  moreover have "byte_bits (ucast w :: 8 word) ! i = bit w (7 - i)"
  proof -
    have "7 - i < 8" by simp
    then show ?thesis using i by (simp add: byte_bits_def bit_ucast_iff)
  qed
  ultimately show "drop 24 (wbits w) ! i = byte_bits (ucast w :: 8 word) ! i" by simp
qed

lemma ucast_toW: "(ucast (toW x) :: 8 word) = word_of_int (x mod 256)"
proof -
  have "(ucast (toW x) :: 8 word) = word_of_int (uint (toW x))" by simp
  also have "\<dots> = word_of_int (x mod 0x100000000)" by (simp add: toW_def uint_word_of_int)
  also have "\<dots> = word_of_int ((x mod 0x100000000) mod 256)"
    by (simp add: word_of_int_eq_iff take_bit_eq_mod)
  also have "(x mod 0x100000000) mod 256 = x mod 256" by (simp add: mod_mod_cancel)
  finally show ?thesis .
qed

lemma all_full:
  assumes "wfb c" "c \<noteq> []" "bitLength c mod 32 = 0"
  shows "getPartial (last c) = 32" "bitLength c = 32 * int (length c)" "bits c = wordsbits c"
proof -
  note d = wfD[OF assms(1,2)]
  have b: "bitLength c = (int (length c) - 1) * 32 + getPartial (last c)"
    using assms(2) by (simp add: bitLength_def)
  have b': "bitLength c = getPartial (last c) + (int (length c) - 1) * 32" using b by simp
  have "getPartial (last c) mod 32 = 0" using assms(3) unfolding b' by (simp only: mod_mult_self1)
  then have "32 dvd getPartial (last c)" by (simp add: dvd_eq_mod_eq_0)
  then obtain q where q: "getPartial (last c) = 32 * q" by (elim dvdE)
  then have "q = 1" using d(3,4) by simp
  then show p: "getPartial (last c) = 32" using q by simp
  show "bitLength c = 32 * int (length c)" using b p by simp
  show "bits c = wordsbits c" using assms(1) p by (rule bits_eq_wordsbits)
qed

lemma last_byte:
  assumes "wfb c" "c \<noteq> []" "bitLength c mod 32 = 0"
  shows "drop (length (bits c) - 8) (bits c) = byte_bits (word_of_int (last c mod 256))"
proof -
  have c: "c = butlast c @ [last c]" using assms(2) by simp
  have "bits c = wordsbits (butlast c @ [last c])" using all_full(3)[OF assms] c by simp
  then have b: "bits c = wordsbits (butlast c) @ wbits (toW (last c))" by (simp add: wordsbits_snoc)
  have "length (bits c) - 8 = length (wordsbits (butlast c)) + 24" unfolding b by simp
  then have "drop (length (bits c) - 8) (bits c) = drop 24 (wbits (toW (last c)))"
    unfolding b by simp
  then show ?thesis by (simp add: drop24_wbits ucast_toW)
qed

lemma pkcs7_unpad_eval:
  assumes "wfb c" "c \<noteq> []" "bitLength c mod 128 = 0" "bitLength c < 0x80000000"
  defines "bi \<equiv> last c mod 256"
  shows "pkcs7_unpad c None =
           (if bi = 0 \<or> 16 < bi \<or>
               drop (length (bits c) - 8 * nat bi) (bits c)
                 \<noteq> bytes_bits (replicate (nat bi) (word_of_int bi))
            then Inl (Corrupt ''pkcs#5 padding corrupt'')
            else Inr (bitSlice c 0 (Some (bitLength c - 8 * bi))))"
proof -
  define bl where "bl = bitLength c"
  have m32: "bl mod 32 = 0" using assms(3) unfolding bl_def by presburger
  note af = all_full[OF assms(1,2) m32[unfolded bl_def]]
  have bl0: "0 \<le> bl" using bitLength_nonneg[OF assms(1)] by (simp add: bl_def)
  have len: "int (length (bits c)) = bl" using length_bits[OF assms(1)] by (simp add: bl_def)
  have "js_sar bl 3 = bl div 8" using js_sar_nonneg[of bl 3] bl0 assms(4) by (simp add: bl_def)
  moreover have "js_sar (bl div 8) 2 = bl div 8 div 4"
    using js_sar_nonneg[of "bl div 8" 2] bl0 assms(4) by (simp add: bl_def)
  moreover have "bl div 8 div 4 = int (length c)" using af(2) by (simp add: bl_def)
  ultimately have idx: "js_sar (js_sar bl 3) 2 - 1 = int (length c) - 1" by simp
  have "nat (int (length c) - 1) = length c - 1" by simp
  then have "nth0 c (int (length c) - 1) = last c"
    using assms(2) by (simp add: nth0_def last_conv_nth)
  then have bi: "js_and (nth0 c (js_sar (js_sar bl 3) 2 - 1)) 255 = bi"
    by (simp add: idx js_and_255 bi_def)
  have alen: "js_shl (int (length c)) 5 = bl"
    using js_shl_small[of "int (length c)" 5] af(2) assms(4) by (simp add: bl_def)
  have h: "\<not> (js_and bl 127 \<noteq> 0 \<or> c = [])" using assms(2,3) by (simp add: js_and_127 bl_def)
  have bi0: "0 \<le> bi" by (simp add: bi_def)
  show ?thesis
  proof (cases "bi = 0 \<or> 16 < bi")
    case True
    have "pkcs7_unpad c None = Inl (Corrupt ''pkcs#5 padding corrupt'')"
      using h True by (simp add: pkcs7_unpad_def bl_def[symmetric] bi Let_def)
    then show ?thesis using True by presburger
  next
    case False
    then have k: "1 \<le> bi" "bi \<le> 16" using bi0 by simp_all
    have s3: "js_shl bi 3 = 8 * bi" using js_shl_small[of bi 3] k by simp
    let ?pf = "bi * 0x1010101"
    let ?pw = "[?pf, ?pf, ?pf, ?pf]"
    note pw = padwords_spec[OF k]
    have nk: "nat bi \<le> 16" using k by simp
    have "8 * bi \<le> bitLength ?pw" using pw(3) k by simp
    from bitSlice_spec[OF pw(1) _ _ this, of 0]
    have l: "wfb (bitSlice ?pw 0 (Some (8 * bi)))"
      "bits (bitSlice ?pw 0 (Some (8 * bi))) = bytes_bits (replicate (nat bi) (word_of_int bi))"
      using k nk by (simp_all add: pw(2) take_bytes_bits nat_mult_distrib min_def)
    have "bl \<noteq> 0" using af(2) assms(2) by (simp add: bl_def)
    then have "128 \<le> bl" using assms(3) bl0 unfolding bl_def[symmetric] by (elim dvdE[OF iffD2[OF dvd_eq_mod_eq_0]]) simp
    then have ge: "8 * bi \<le> bl" using k by simp
    from bitSlice_spec[OF assms(1), of "bl - 8 * bi" bl]
    have r: "wfb (bitSlice c (bl - 8 * bi) (Some bl))"
      "bits (bitSlice c (bl - 8 * bi) (Some bl))
         = take (nat (8 * bi)) (drop (nat (bl - 8 * bi)) (bits c))"
      using ge k by (simp_all add: bl_def)
    have n: "nat (bl - 8 * bi) = length (bits c) - 8 * nat bi" using len k ge by linarith
    have "length (drop (nat (bl - 8 * bi)) (bits c)) = nat (8 * bi)"
      using len ge k by simp
    then have r2: "bits (bitSlice c (bl - 8 * bi) (Some bl))
        = drop (length (bits c) - 8 * nat bi) (bits c)"
      unfolding r(2) n[symmetric] by simp
    have eq: "equal_bits (bitSlice ?pw 0 (Some (8 * bi))) (bitSlice c (bl - 8 * bi) (Some bl))
        \<longleftrightarrow> drop (length (bits c) - 8 * nat bi) (bits c)
              = bytes_bits (replicate (nat bi) (word_of_int bi))"
      unfolding equal_bits_spec[OF l(1) r(1)] l(2) r2 by auto
    have "pkcs7_unpad c None =
       (if \<not> equal_bits (bitSlice ?pw 0 (Some (8 * bi))) (bitSlice c (bl - 8 * bi) (Some bl))
        then Inl (Corrupt ''pkcs#5 padding corrupt'')
        else Inr (bitSlice c 0 (Some (bl - 8 * bi))))"
      using h False
      by (simp only: pkcs7_unpad_def Let_def bl_def[symmetric] bi alen s3 pkcs7_blocklen_None
          bind_err_Inr if_False)
    then show ?thesis using False unfolding eq by (simp add: bl_def)
  qed
qed


lemma pkcs7_unpad_result:
  assumes "wfb c" "c \<noteq> []" "bitLength c mod 128 = 0" "bitLength c < 0x80000000"
    and "1 \<le> bi" "bi \<le> 16"
  shows "wfb (bitSlice c 0 (Some (bitLength c - 8 * bi)))"
    and "bits (bitSlice c 0 (Some (bitLength c - 8 * bi)))
           = take (length (bits c) - 8 * nat bi) (bits c)"
    and "8 * nat bi \<le> length (bits c)"
proof -
  have m32: "bitLength c mod 32 = 0" using assms(3) by presburger
  have "bitLength c = 32 * int (length c)" using all_full(2)[OF assms(1,2) m32] .
  then have "bitLength c \<noteq> 0" "0 \<le> bitLength c" using assms(2) by simp_all
  then have "128 \<le> bitLength c" using assms(3) by presburger
  then have ge: "8 * bi \<le> bitLength c" using assms(6) by simp
  have len: "int (length (bits c)) = bitLength c" using length_bits[OF assms(1)] .
  have n: "nat (bitLength c - 8 * bi) = length (bits c) - 8 * nat bi"
    using len ge assms(5) by linarith
  from bitSlice_spec[OF assms(1), of 0 "bitLength c - 8 * bi"]
  show "wfb (bitSlice c 0 (Some (bitLength c - 8 * bi)))"
    and "bits (bitSlice c 0 (Some (bitLength c - 8 * bi)))
           = take (length (bits c) - 8 * nat bi) (bits c)"
    using ge assms(5) n by simp_all
  show "8 * nat bi \<le> length (bits c)" using len ge assms(5) by linarith
qed

lemma pkcs7_unpad_accepts:
  assumes "wfb c" "c \<noteq> []" "bitLength c mod 128 = 0" "bitLength c < 0x80000000"
    and "1 \<le> k" "k \<le> 16" "bits c = x @ bytes_bits (replicate k (of_nat k))"
  shows "\<exists>y. pkcs7_unpad c None = Inr y \<and> wfb y \<and> bits y = x"
proof -
  define bi where "bi = last c mod 256"
  have m32: "bitLength c mod 32 = 0" using assms(3) by presburger
  have bi: "0 \<le> bi" "bi < 256" by (simp_all add: bi_def)
  let ?B = "bytes_bits (replicate k (of_nat k :: 8 word))"
  have lB: "length ?B = 8 * k" by simp
  have "length (bits c) - 8 = length x + 8 * (k - 1)" unfolding assms(7) using assms(5) by simp
  then have "drop (length (bits c) - 8) (bits c) = drop (8 * (k - 1)) ?B"
    unfolding assms(7) by simp
  also have "\<dots> = bytes_bits (replicate (k - (k - 1)) (of_nat k))"
    by (simp only: drop_bytes_bits drop_replicate)
  also have "k - (k - 1) = 1" using assms(5) by simp
  finally have "byte_bits (word_of_int bi) = byte_bits (of_nat k :: 8 word)"
    using last_byte[OF assms(1,2) m32] by (simp add: bi_def)
  then have "(word_of_int bi :: 8 word) = of_nat k" by (rule byte_bits_inj)
  then have "uint (word_of_int bi :: 8 word) = uint (of_nat k :: 8 word)" by simp
  moreover have "uint (word_of_int bi :: 8 word) = bi"
    using bi by (simp add: uint_word_of_int take_bit_eq_mod)
  moreover have "uint (of_nat k :: 8 word) = int k"
  proof -
    have "unat (of_nat k :: 8 word) = k" using assms(6) by (simp add: unat_of_nat)
    then show ?thesis by (simp only: uint_nat)
  qed
  ultimately have bk: "bi = int k" by simp
  have w: "(word_of_int (int k) :: 8 word) = of_nat k" by simp
  have kb: "1 \<le> bi" "bi \<le> 16" using bk assms(5,6) by simp_all
  have "length (bits c) - 8 * k = length x" unfolding assms(7) by simp
  then have d: "drop (length (bits c) - 8 * k) (bits c) = ?B"
    and tk: "take (length (bits c) - 8 * k) (bits c) = x"
    unfolding assms(7) by simp_all
  have "pkcs7_unpad c None = Inr (bitSlice c 0 (Some (bitLength c - 8 * bi)))"
    unfolding pkcs7_unpad_eval[OF assms(1-4)] bi_def[symmetric]
    using kb d by (simp add: bk w)
  moreover note pkcs7_unpad_result(1,2)[OF assms(1-4) kb]
  ultimately show ?thesis using tk by (simp add: bk)
qed

lemma pkcs7_unpad_sound:
  assumes "wfb c" "c \<noteq> []" "bitLength c mod 128 = 0" "bitLength c < 0x80000000"
    and "pkcs7_unpad c None = Inr y"
  shows "\<exists>k. 1 \<le> k \<and> k \<le> 16 \<and> wfb y \<and> bits c = bits y @ bytes_bits (replicate k (of_nat k))"
proof -
  define bi where "bi = last c mod 256"
  let ?B = "bytes_bits (replicate (nat bi) (word_of_int bi :: 8 word))"
  have e: "(if bi = 0 \<or> 16 < bi \<or> drop (length (bits c) - 8 * nat bi) (bits c) \<noteq> ?B
            then Inl (Corrupt ''pkcs#5 padding corrupt'')
            else Inr (bitSlice c 0 (Some (bitLength c - 8 * bi)))) = Inr y"
    using assms(5) unfolding pkcs7_unpad_eval[OF assms(1-4)] bi_def[symmetric] .
  have c: "\<not> (bi = 0 \<or> 16 < bi \<or> drop (length (bits c) - 8 * nat bi) (bits c) \<noteq> ?B)"
    using e by (cases "bi = 0 \<or> 16 < bi \<or> drop (length (bits c) - 8 * nat bi) (bits c) \<noteq> ?B")
      simp_all
  then have y: "y = bitSlice c 0 (Some (bitLength c - 8 * bi))" using e by simp
  have "0 \<le> bi" by (simp add: bi_def)
  then have kb: "1 \<le> bi" "bi \<le> 16" using c by simp_all
  have d: "drop (length (bits c) - 8 * nat bi) (bits c) = ?B" using c by simp
  note r = pkcs7_unpad_result[OF assms(1-4) kb]
  have "bits c = take (length (bits c) - 8 * nat bi) (bits c)
                 @ drop (length (bits c) - 8 * nat bi) (bits c)" by simp
  then have "bits c = bits y @ ?B" unfolding d y r(2) .
  moreover have "(word_of_int bi :: 8 word) = of_nat (nat bi)" using kb by simp
  ultimately have b: "bits c = bits y @ bytes_bits (replicate (nat bi) (of_nat (nat bi)))"
    by (simp only:)
  have n: "1 \<le> nat bi" "nat bi \<le> 16" using kb by simp_all
  have wy: "wfb y" unfolding y by (rule r(1))
  show ?thesis using n wy b by (intro exI[of _ "nat bi"] conjI)
qed

lemma pkcs7_unpad_corrupt:
  assumes "wfb c" "c \<noteq> []" "bitLength c mod 128 = 0" "bitLength c < 0x80000000"
  shows "(\<exists>y. pkcs7_unpad c None = Inr y) \<or> pkcs7_unpad c None = Inl (Corrupt ''pkcs#5 padding corrupt'')"
  unfolding pkcs7_unpad_eval[OF assms] by simp

lemma pkcs7_unpad_misaligned:
  "bitLength c mod 128 \<noteq> 0 \<or> c = [] \<Longrightarrow>
   pkcs7_unpad c None = Inl (Corrupt ''input must be a positive multiple of the block size'')"
  by (auto simp: pkcs7_unpad_def Let_def js_and_127)


lemma example_padded:
  "wfb [8794666958848]" "bitLength [8794666958848] = 8"
  "pkcs7_pad [8794666958848] None = Inr [- 1425076465, 252645135, 252645135, 252645135]"
  by code_simp+

subsection \<open>PKCS#1 v1.5 padding\<close>

lemma draw_nonzero_spec:
  "usable rng = x # xs \<Longrightarrow>
   \<exists>rng'. draw_nonzero rng = Inr (js_and x 0xff, rng') \<and> usable rng' = xs"
proof (induction rng)
  case Nil
  then show ?case by (simp add: usable_def)
next
  case (Cons r rng)
  show ?case
  proof (cases "js_and r 0xff = 0")
    case True
    then have "usable rng = x # xs" using Cons.prems by (simp add: usable_def)
    then show ?thesis using Cons.IH True by simp
  next
    case False
    then have "r = x" "usable rng = xs" using Cons.prems by (simp_all add: usable_def)
    then show ?thesis using False by simp
  qed
qed

lemma wbits_shl8_or:
  assumes "0 \<le> cb" "cb < 256"
  shows "wbits (toW (js_or (js_shl t 8) cb)) = drop 8 (wbits (toW t)) @ byte_bits (word_of_int cb)"
proof (rule nth_equalityI)
  show "length (wbits (toW (js_or (js_shl t 8) cb)))
      = length (drop 8 (wbits (toW t)) @ byte_bits (word_of_int cb :: 8 word))" by simp
next
  fix i assume "i < length (wbits (toW (js_or (js_shl t 8) cb)))"
  then have i: "i < 32" by simp
  have c: "toW cb = ucast (word_of_int cb :: 8 word)"
  proof -
    have "uint (word_of_int cb :: 8 word) = cb"
      using assms by (simp add: uint_word_of_int take_bit_eq_mod)
    moreover have "(ucast (word_of_int cb :: 8 word) :: 32 word)
        = word_of_int (uint (word_of_int cb :: 8 word))" by simp
    ultimately show ?thesis by (simp only: toW_def)
  qed
  have sh: "toW (js_shl t 8) = push_bit 8 (toW t)" by (simp add: js_shl_def)
  show "wbits (toW (js_or (js_shl t 8) cb)) ! i
      = (drop 8 (wbits (toW t)) @ byte_bits (word_of_int cb :: 8 word)) ! i"
  proof (cases "i < 24")
    case True
    then have "8 \<le> 31 - i" "31 - i - 8 = 31 - (8 + i)" by simp_all
    moreover have "\<not> bit (word_of_int cb :: 8 word) (31 - i)"
      using True by (auto dest: bit_imp_le_length)
    moreover have "31 - i < 32" by simp
    ultimately show ?thesis using True i
      by (simp add: sh c nth_wbits nth_append bit_or_iff bit_push_bit_iff bit_ucast_iff)
  next
    case False
    define j where "j = i - 24"
    have j: "i = 24 + j" "j < 8" using False i by (simp_all add: j_def)
    have "wbits (toW (js_or (js_shl t 8) cb)) ! (24 + j)
        = bit (toW (js_or (js_shl t 8) cb)) (7 - j)"
      using j(2) by (simp add: nth_wbits)
    also have "\<dots> = bit (word_of_int cb :: 8 word) (7 - j)"
    proof -
      have "7 - j < 8" "7 - j < 32" by simp_all
      then show ?thesis by (simp add: sh c bit_or_iff bit_push_bit_iff bit_ucast_iff)
    qed
    also have "\<dots> = byte_bits (word_of_int cb :: 8 word) ! j"
      using j(2) by (simp add: byte_bits_def)
    also have "\<dots> = (drop 8 (wbits (toW t)) @ byte_bits (word_of_int cb :: 8 word)) ! (24 + j)"
      by (simp add: nth_append)
    finally show ?thesis unfolding j(1) .
  qed
qed


lemma ps_byte:
  assumes "bt = 0 \<or> bt = 1 \<or> bt = 2" "bt = 2 \<longrightarrow> Suc n \<le> length (usable rng)"
  shows "\<exists>cb rng'. (if bt = 1 then Inr (0xff, rng) else if bt = 2 then draw_nonzero rng
                       else Inr (0, rng)) = Inr (cb, rng') \<and>
           0 \<le> cb \<and> cb < 256 \<and> ps_filler bt [word_of_int cb] \<and>
           (bt = 2 \<longrightarrow> n \<le> length (usable rng'))"
proof (cases "bt = 2")
  case False
  then show ?thesis using assms(1) by (auto simp: ps_filler_def)
next
  case True
  then obtain x xs where u: "usable rng = x # xs" using assms(2) by (cases "usable rng") simp_all
  obtain rng' where d: "draw_nonzero rng = Inr (js_and x 0xff, rng')" "usable rng' = xs"
    using draw_nonzero_spec[OF u] by blast
  have "x \<in> set (usable rng)" using u by simp
  then have nz: "js_and x 0xff \<noteq> 0" by (simp add: usable_def)
  have r: "0 \<le> js_and x 0xff" "js_and x 0xff < 256" by (simp_all add: js_and_255)
  have "uint (word_of_int (js_and x 0xff) :: 8 word) = js_and x 0xff"
    using r by (simp add: uint_word_of_int take_bit_eq_mod)
  then have "(word_of_int (js_and x 0xff) :: 8 word) \<noteq> 0" using nz by auto
  then have "ps_filler bt [word_of_int (js_and x 0xff)]" using True by (simp add: ps_filler_def)
  moreover have "n \<le> length (usable rng')" using assms(2) True u d(2) by simp
  ultimately show ?thesis using True d(1) r by simp
qed

lemma ps_filler_append: "ps_filler bt xs \<Longrightarrow> ps_filler bt ys \<Longrightarrow> ps_filler bt (xs @ ys)"
  by (simp add: ps_filler_def)

lemma pkcs15_ps_loop_spec:
  assumes bt: "bt = 0 \<or> bt = 1 \<or> bt = 2"
  shows "nat (psLen - i) = n \<Longrightarrow> 0 \<le> i \<Longrightarrow> i \<le> psLen \<Longrightarrow>
     (bt = 2 \<longrightarrow> n \<le> length (usable rng)) \<Longrightarrow>
     length bs = nat i \<Longrightarrow> list_all fullword ps \<Longrightarrow>
     wordsbits ps @ drop (32 - 8 * nat (i mod 4)) (wbits (toW tmp)) = bytes_bits bs \<Longrightarrow>
     ps_filler bt bs \<Longrightarrow>
     \<exists>tmp' ps' rng' bs'. pkcs15_ps_loop bt psLen i tmp ps rng = Inr (psLen, tmp', ps', rng') \<and>
        length bs' = nat psLen \<and> list_all fullword ps' \<and>
        wordsbits ps' @ drop (32 - 8 * nat (psLen mod 4)) (wbits (toW tmp')) = bytes_bits bs' \<and>
        ps_filler bt bs'"
proof (induction n arbitrary: i tmp ps rng bs)
  case 0
  then have "i = psLen" by simp
  then show ?case using 0 by (subst pkcs15_ps_loop.simps) auto
next
  case (Suc n)
  have lt: "i < psLen" using Suc.prems(1) by linarith
  obtain cb rng2 where cb: "(if bt = 1 then Inr (0xff, rng) else if bt = 2 then draw_nonzero rng
                       else Inr (0, rng)) = Inr (cb, rng2)"
    "0 \<le> cb" "cb < 256" "ps_filler bt [word_of_int cb]" "bt = 2 \<longrightarrow> n \<le> length (usable rng2)"
    using ps_byte[OF bt Suc.prems(4)] by blast
  define tmp' where "tmp' = js_or (js_shl tmp 8) cb"
  define r where "r = nat (i mod 4)"
  have r: "r < 4" "int r = i mod 4" by (simp_all add: r_def)
  have w: "wbits (toW tmp') = drop 8 (wbits (toW tmp)) @ byte_bits (word_of_int cb)"
    unfolding tmp'_def by (rule wbits_shl8_or[OF cb(2,3)])
  let ?bs = "bs @ [word_of_int cb]"
  have n': "nat (psLen - (i + 1)) = n" "0 \<le> i + 1" "i + 1 \<le> psLen" "length ?bs = nat (i + 1)"
    using Suc.prems lt by simp_all
  have fl: "ps_filler bt ?bs" using Suc.prems(8) cb(4) by (rule ps_filler_append)
  have step: "pkcs15_ps_loop bt psLen i tmp ps rng =
      (if js_and i 3 = 3 then pkcs15_ps_loop bt psLen (i + 1) 0 (ps @ [tmp']) rng2
       else pkcs15_ps_loop bt psLen (i + 1) tmp' ps rng2)"
    using lt by (subst pkcs15_ps_loop.simps) (simp add: cb(1) tmp'_def Let_def)
  have inv: "wordsbits ps @ drop (32 - 8 * r) (wbits (toW tmp)) = bytes_bits bs"
    using Suc.prems(7) by (simp add: r_def)
  show ?case
  proof (cases "r = 3")
    case True
    then have m: "(i + 1) mod 4 = 0" using r(2) by presburger
    have f: "list_all fullword (ps @ [tmp'])" using Suc.prems(6) by (simp add: tmp'_def)
    have "wordsbits (ps @ [tmp']) = bytes_bits ?bs"
      using inv True by (simp add: w wordsbits_snoc)
    then have i2: "wordsbits (ps @ [tmp']) @ drop (32 - 8 * nat ((i + 1) mod 4)) (wbits (toW 0))
        = bytes_bits ?bs"
      by (simp add: m)
    have "js_and i 3 = 3" using True r(2) by (simp add: js_and_3)
    then have "pkcs15_ps_loop bt psLen i tmp ps rng
        = pkcs15_ps_loop bt psLen (i + 1) 0 (ps @ [tmp']) rng2"
      using step by simp
    then show ?thesis using Suc.IH[OF n'(1,2,3) cb(5) n'(4) f i2 fl] by (simp only:)
  next
    case False
    then have r3: "r < 3" using r(1) by simp
    then have m: "(i + 1) mod 4 = int r + 1" using r(2) by presburger
    have "drop (32 - 8 * (r + 1)) (wbits (toW tmp'))
        = drop (32 - 8 * r) (wbits (toW tmp)) @ byte_bits (word_of_int cb)"
      using r3 by (simp add: w)
    then have "wordsbits ps @ drop (32 - 8 * (r + 1)) (wbits (toW tmp')) = bytes_bits ?bs"
      using inv by simp
    moreover have "nat ((i + 1) mod 4) = r + 1" using m by simp
    ultimately have i2: "wordsbits ps @ drop (32 - 8 * nat ((i + 1) mod 4)) (wbits (toW tmp'))
        = bytes_bits ?bs"
      by (simp only:)
    have "js_and i 3 \<noteq> 3" using r3 r(2) by (simp add: js_and_3)
    then have "pkcs15_ps_loop bt psLen i tmp ps rng
        = pkcs15_ps_loop bt psLen (i + 1) tmp' ps rng2"
      using step by simp
    then show ?thesis
      using Suc.IH[OF n'(1,2,3) cb(5) n'(4) Suc.prems(6) i2 fl] by (simp only:)
  qed
qed


lemma wbits_partial_start:
  assumes "1 \<le> len" "len \<le> 31"
  shows "wbits (toW (partial len x False))
       = drop (nat (32 - len)) (wbits (toW x)) @ replicate (nat (32 - len)) False"
proof -
  have "nat (32 - len) \<le> 32" using assms by simp
  from wbits_push[OF this, of "toW x"] show ?thesis by (simp add: toW_partial_start[OF assms])
qed

lemma ps_final:
  assumes "list_all fullword ps0"
    and "wordsbits ps0 @ drop (32 - 8 * nat (i mod 4)) (wbits (toW tmp)) = bytes_bits bs"
  defines "ps \<equiv> (if js_and i 3 \<noteq> 0 then ps0 @ [partial (8 * js_and i 3) tmp False] else ps0)"
  shows "wfb ps" "bits ps = bytes_bits bs"
proof -
  define r where "r = i mod 4"
  have r: "0 \<le> r" "r < 4" by (simp_all add: r_def)
  have "wfb ps \<and> bits ps = bytes_bits bs"
  proof (cases "r = 0")
    case True
    then have "ps = ps0" by (simp add: ps_def js_and_3 r_def)
    moreover have "wordsbits ps0 = bytes_bits bs" using assms(2) True by (simp add: r_def)
    ultimately show ?thesis using wfb_full(1,2)[OF assms(1)] by simp
  next
    case False
    then have l: "1 \<le> 8 * r" "8 * r \<le> 31" "8 * r \<le> 32" using r by simp_all
    have p: "ps = ps0 @ [partial (8 * r) tmp False]" using False by (simp add: ps_def js_and_3 r_def)
    have n: "nat (32 - 8 * r) = 32 - 8 * nat r" using r by simp
    have a2: "wordsbits ps0 @ drop (32 - 8 * nat r) (wbits (toW tmp)) = bytes_bits bs"
      using assms(2) by (simp only: r_def)
    have "wordsbits (ps0 @ [partial (8 * r) tmp False])
        = (wordsbits ps0 @ drop (32 - 8 * nat r) (wbits (toW tmp)))
          @ replicate (nat (32 - 8 * r)) False"
      unfolding wordsbits_snoc wbits_partial_start[OF l(1,2)] n by simp
    then have "wordsbits (ps0 @ [partial (8 * r) tmp False])
        = bytes_bits bs @ replicate (nat (32 - 8 * r)) False"
      by (simp only: a2)
    from wfI(1,2)[OF assms(1) getPartial_partial_start[OF l(1,2)] l(1) l(3) this]
    show ?thesis by (simp add: p)
  qed
  then show "wfb ps" "bits ps = bytes_bits bs" by simp_all
qed

lemma byte_partial:
  assumes "0 \<le> x" "x < 256"
  shows "wfb [partial 8 x False]" "bits [partial 8 x False] = bytes_bits [word_of_int x]"
proof -
  show "wfb [partial 8 x False]" by (rule partial_start_spec(1)) simp_all
  have "bits [partial 8 x False] = drop 24 (wbits (toW x))"
    using partial_start_spec(2)[of 8 x] by simp
  then show "bits [partial 8 x False] = bytes_bits [word_of_int x]"
    using assms by (simp add: drop24_wbits ucast_toW)
qed

lemma pkcs15_pad_spec:
  assumes "wfb a" "a \<noteq> []" "bitLength a mod 8 = 0" "bt = 0 \<or> bt = 1 \<or> bt = 2"
    and "bitLength a div 8 + 3 \<le> blockLength"
    and "bt = 2 \<longrightarrow> nat (blockLength - 3 - bitLength a div 8) \<le> length (usable rng)"
  shows "\<exists>out rng' ps. pkcs15_pad rng a blockLength (Some bt) = Inr (out, rng') \<and> wfb out \<and>
           bits out = bytes_bits ([0, word_of_int bt] @ ps @ [0]) @ bits a \<and>
           int (length ps) = blockLength - 3 - bitLength a div 8 \<and> ps_filler bt ps"
proof -
  define psLen where "psLen = blockLength - 3 - bitLength a div 8"
  have p0: "0 \<le> psLen" using assms(5) by (simp add: psLen_def)
  have f0: "ps_filler bt []" by (simp add: ps_filler_def)
  have "\<exists>tmp' ps' rng' bs'. pkcs15_ps_loop bt psLen 0 0 [] rng = Inr (psLen, tmp', ps', rng') \<and>
        length bs' = nat psLen \<and> list_all fullword ps' \<and>
        wordsbits ps' @ drop (32 - 8 * nat (psLen mod 4)) (wbits (toW tmp')) = bytes_bits bs' \<and>
        ps_filler bt bs'"
    using assms(6) p0 f0
    by (intro pkcs15_ps_loop_spec[OF assms(4), where n="nat psLen" and bs="[]"])
      (simp_all add: psLen_def)
  then obtain tmp' ps' rng' bs where
    lp: "pkcs15_ps_loop bt psLen 0 0 [] rng = Inr (psLen, tmp', ps', rng')"
    and bs: "length bs = nat psLen" "ps_filler bt bs"
    and inv: "list_all fullword ps'"
      "wordsbits ps' @ drop (32 - 8 * nat (psLen mod 4)) (wbits (toW tmp')) = bytes_bits bs"
    by blast
  define ps where
    "ps = (if js_and psLen 3 \<noteq> 0 then ps' @ [partial (8 * js_and psLen 3) tmp' False] else ps')"
  note pf = ps_final[OF inv, folded ps_def]
  have bt: "0 \<le> bt" "bt < 256" using assms(4) by auto
  note z = byte_partial[of 0]
  note b = byte_partial[OF bt]
  define b1 where "b1 = concat_bits [partial 8 0 False] [partial 8 bt False]"
  define b2 where "b2 = concat_bits b1 ps"
  define b3 where "b3 = concat_bits b2 [partial 8 0 False]"
  define out where "out = concat_bits b3 a"
  have c1: "wfb b1" "bits b1 = bytes_bits [0, word_of_int bt]"
    using concat_spec[OF z(1) b(1)] z(2) b(2) by (simp_all add: b1_def)
  have c2: "wfb b2" "bits b2 = bytes_bits ([0, word_of_int bt] @ bs)"
    using concat_spec[OF c1(1) pf(1)] c1(2) pf(2) by (simp_all add: b2_def)
  have c3: "wfb b3" "bits b3 = bytes_bits ([0, word_of_int bt] @ bs @ [0])"
    using concat_spec[OF c2(1) z(1)] c2(2) z(2) by (simp_all add: b3_def)
  have c4: "wfb out" "bits out = bytes_bits ([0, word_of_int bt] @ bs @ [0]) @ bits a"
    using concat_spec[OF c3(1) assms(1)] c3(2) by (simp_all add: out_def)
  have g: "\<not> (js_and (bitLength a) 7 \<noteq> 0 \<or> a = [])" "\<not> (bt \<noteq> 0 \<and> bt \<noteq> 1 \<and> bt \<noteq> 2)"
    "\<not> bitLength a div 8 + 3 > blockLength"
    using assms(2,3,4,5) by (simp_all add: js_and_7)
  have "pkcs15_pad rng a blockLength (Some bt) = Inr (out, rng')"
    unfolding pkcs15_pad_def Let_def
    by (simp only: g if_False option.case psLen_def[symmetric] lp bind_err_Inr prod.case
        ps_def[symmetric] b1_def[symmetric] b2_def[symmetric] b3_def[symmetric] out_def[symmetric])
  moreover have "int (length bs) = blockLength - 3 - bitLength a div 8"
    using bs(1) p0 by (simp add: psLen_def)
  ultimately show ?thesis using c4 bs(2) by (intro exI[of _ out] exI[of _ rng'] exI[of _ bs] conjI)
qed

lemma pkcs15_pad_reject:
  "bitLength a mod 8 \<noteq> 0 \<or> a = [] \<or> blockLength < bitLength a div 8 + 3 \<Longrightarrow>
   bt = 0 \<or> bt = 1 \<or> bt = 2 \<Longrightarrow>
   \<exists>m. pkcs15_pad rng a blockLength (Some bt) = Inl (Corrupt m)"
  by (auto simp: pkcs15_pad_def Let_def js_and_7)


lemma example_pkcs15:
  "pkcs15_pad [0x100, 0x1ab, 0x200, 0xcd, 7] [partial 8 0xaa False] 6 (Some 2)
     = Inr ([0x0002abcd, 17592197185536], [7])"
  "wfb [partial 8 0xaa False]" "bitLength [partial 8 0xaa False] = 8"
  "usable [0x100, 0x1ab, 0x200, 0xcd, 7] = [0x1ab, 0xcd, 7]"
  by code_simp+

section \<open>The claims\<close>


text \<open>
  C5. \<open>eb.comm.demangleNonce\<close> is to invert the mangling of the server for every nonce of
  1 to 16 bytes. It does not when the last word is partial: the tail is shifted out of
  the bits that \<open>clamp\<close> keeps. The nonce of the single byte 0x04 is mangled to 0x05, and
  the source demangles that to the byte 0x00.
\<close>

theorem demangleNonce_partial_word_lost:
  "mangleNonce [partial 8 0x04 False] = [partial 8 0x05 False] \<and>
   demangleNonce [partial 8 0x05 False] = Inr [partial 8 0x00 False] \<and>
   partial 8 0x00 False \<noteq> partial 8 0x04 False"
  by code_simp

text \<open>
  C9, at the empty API key. The empty string is a string over \<open>[a-zA-Z0-9_-]\<close>, and
  \<open>getUoHandle\<close> builds from it, \<open>uoId = 1\<close> and \<open>uoType = 2\<close> a handle of twenty digits.
  \<open>parseHandle\<close> accepts that handle and does not give the three components back: the
  pattern wants an API key of at least one character, so the ten digits of the \<open>uoId\<close> part
  are returned as the API key, the digits of \<open>uoType\<close> as the \<open>uoId\<close>, and there is no
  \<open>uoType\<close>.
\<close>

theorem handle_roundtrip_empty_key:
  "list_all is_handle_char [] \<and>
   getUoHandle [] (Some (Num 1)) (Some (Num 2)) = Inr ''00000000010000000002'' \<and>
   parseHandle ''00000000010000000002''
     = Inr \<lparr>apiKey = ''0000000001'', uoId = ''00000002'', uoType = None\<rparr> \<and>
   bind_err (getUoHandle [] (Some (Num 1)) (Some (Num 2))) parseHandle
     \<noteq> Inr \<lparr>apiKey = [], uoId = sprintf_0x 8 1, uoType = Some (sprintf_0x 8 2)\<rparr>"
proof -
  have r7: "replicate 7 (CHR ''0'') = ''0000000''" by (simp add: numeral_eq_Suc)
  have s1: "sprintf_0x 8 1 = ''00000001''"
    by (simp add: sprintf_0x_def toString16_def hexstr_nat.simps hexdigit_def r7)
  have s2: "sprintf_0x 8 2 = ''00000002''"
    by (simp add: sprintf_0x_def toString16_def hexstr_nat.simps hexdigit_def r7)
  have g: "getUoHandle [] (Some (Num 1)) (Some (Num 2)) = Inr ''00000000010000000002''"
    by (simp add: getUoHandle_def inputToHexNum_def s1 s2)
  have p: "parseHandle ''00000000010000000002''
     = Inr \<lparr>apiKey = ''0000000001'', uoId = ''00000002'', uoType = None\<rparr>"
    by code_simp
  have n: "bind_err (getUoHandle [] (Some (Num 1)) (Some (Num 2))) parseHandle
     \<noteq> Inr \<lparr>apiKey = [], uoId = sprintf_0x 8 1, uoType = Some (sprintf_0x 8 2)\<rparr>"
    unfolding g bind_err_Inr p by simp
  have e: "list_all is_handle_char []" by simp
  show ?thesis using e g p n by (intro conjI)
qed

text \<open>
  C9 (as amended). For every non-empty API key of the characters \<open>[a-zA-Z0-9_-]\<close> and all
  32-bit numbers \<open>uoId\<close> and \<open>uoType\<close>, \<open>parseHandle (getUoHandle apiKey uoId uoType)\<close> gives
  back the API key and the two numbers, each as the eight hexadecimal digits that
  \<open>inputToHexNum\<close> reads as the original number; and a handle built without \<open>uoType\<close> is the
  handle built with \<open>uoType = 0\<close>.
\<close>

theorem handle_roundtrip:
  assumes "key \<noteq> []" "list_all is_handle_char key"
    and "0 \<le> uid" "uid < 0x100000000" "0 \<le> utype" "utype < 0x100000000"
  shows "bind_err (getUoHandle key (Some (Num uid)) (Some (Num utype))) parseHandle
           = Inr \<lparr>apiKey = key, uoId = sprintf_0x 8 uid, uoType = Some (sprintf_0x 8 utype)\<rparr>
       \<and> inputToHexNum (Str (sprintf_0x 8 uid)) = Inr uid
       \<and> inputToHexNum (Str (sprintf_0x 8 utype)) = Inr utype
       \<and> getUoHandle key (Some (Num uid)) None = getUoHandle key (Some (Num uid)) (Some (Num 0))"
proof -
  let ?i = "sprintf_0x 8 uid" and ?t = "sprintf_0x 8 utype"
  note pi = sprintf_0x8_props[OF assms(3,4)]
  note pt = sprintf_0x8_props[OF assms(5,6)]
  have hi: "list_all is_hex ?i" using pi(2) by (simp add: list_all_iff)
  have ht: "list_all is_hex ?t" using pt(2) by (simp add: list_all_iff)
  have g: "getUoHandle key (Some (Num uid)) (Some (Num utype)) = Inr (key @ (''00'' @ ?i @ ''00'' @ ?t))"
    by (simp add: getUoHandle_def inputToHexNum_def bind_err_def)
  have tl: "handle_tail (''00'' @ ?i @ ''00'' @ ?t) = Some (?i, Some ?t)"
    using handle_tail_full[OF pi(1) hi pt(1) ht] .
  have "length (''00'' @ ?i @ ''00'' @ ?t) = 20" using pi(1) pt(1) by simp
  from handle_match_prefix[OF assms(1,2) tl this, of "[]"]
  have "parseHandle (key @ (''00'' @ ?i @ ''00'' @ ?t))
      = Inr \<lparr>apiKey = key, uoId = ?i, uoType = Some ?t\<rparr>"
    by (simp add: parseHandle_def)
  then have 1: "bind_err (getUoHandle key (Some (Num uid)) (Some (Num utype))) parseHandle
           = Inr \<lparr>apiKey = key, uoId = ?i, uoType = Some ?t\<rparr>"
    by (simp add: g bind_err_def)
  have 4: "getUoHandle key (Some (Num uid)) None = getUoHandle key (Some (Num uid)) (Some (Num 0))"
    by (simp add: getUoHandle_def)
  show ?thesis
    using 1 4 inputToHexNum_sprintf[OF assms(3,4)] inputToHexNum_sprintf[OF assms(5,6)] by simp
qed

theorem handle_roundtrip_witness:
  "''TEST_API'' \<noteq> [] \<and> list_all is_handle_char ''TEST_API'' \<and>
   (0::int) \<le> 0x13 \<and> (0x13::int) < 0x100000000 \<and> (0::int) \<le> 0xa00004 \<and> (0xa00004::int) < 0x100000000 \<and>
   bind_err (getUoHandle ''TEST_API'' (Some (Num 0x13)) (Some (Num 0xa00004))) parseHandle
     = Inr \<lparr>apiKey = ''TEST_API'', uoId = ''00000013'', uoType = Some ''00a00004''\<rparr>"
proof -
  have h: "list_all is_handle_char ''TEST_API''" by code_simp
  have n: "''TEST_API'' \<noteq> []" by simp
  have r6: "replicate 6 (CHR ''0'') = ''000000''" and r2: "replicate 2 (CHR ''0'') = ''00''"
    by (simp_all add: numeral_eq_Suc)
  have s1: "sprintf_0x 8 0x13 = ''00000013''"
    by (simp add: sprintf_0x_def toString16_def hexstr_nat.simps hexdigit_def r6)
  have s2: "sprintf_0x 8 0xa00004 = ''00a00004''"
    by (simp add: sprintf_0x_def toString16_def hexstr_nat.simps hexdigit_def r2)
  have b: "(0::int) \<le> 0x13" "(0x13::int) < 0x100000000" "(0::int) \<le> 0xa00004"
    "(0xa00004::int) < 0x100000000" by simp_all
  have "bind_err (getUoHandle ''TEST_API'' (Some (Num 0x13)) (Some (Num 0xa00004))) parseHandle
     = Inr \<lparr>apiKey = ''TEST_API'', uoId = ''00000013'', uoType = Some ''00a00004''\<rparr>"
    using handle_roundtrip[OF n h b, THEN conjunct1] unfolding s1 s2 .
  then show ?thesis using h n b by (intro conjI)
qed

text \<open>
  C3. \<open>parse\<close> verifies the MAC before it decrypts. When the status is 0x9000 and the keys
  are accepted: if the CBC-MAC of the ciphertext under the MAC key differs from the tag,
  \<open>parse\<close> raises \<open>Corrupt\<close>, and it does so whatever the decryption function is, which is
  not consulted; and whenever \<open>parse\<close> returns a response, the tag of that response equals
  the MAC computed over the ciphertext.
\<close>

theorem parse_mac_before_decrypt:
  assumes "parseInt16 (status data) = Some 0x9000" "function_name data \<noteq> []"
    and "inputToBits aesKey0 = Inr ak" "inputToBits macKey0 = Inr mk"
    and "length ak = 4 \<or> length ak = 6 \<or> length ak = 8"
    and "length mk = 4 \<or> length mk = 6 \<or> length mk = 8"
  shows "((\<forall>c. hmac_cbc_mac (E (map toW mk)) (response_ct data) = Inr c
              \<longrightarrow> \<not> equal_bits (response_tag data) c)
          \<longrightarrow> (\<exists>m. parse E D aesKey0 macKey0 data = Inl (Corrupt m)) \<and>
              (\<forall>D'. parse E D' aesKey0 macKey0 data = parse E D aesKey0 macKey0 data))
       \<and> (\<forall>r. parse E D aesKey0 macKey0 data = Inr r
              \<longrightarrow> hmac_cbc_mac (E (map toW mk)) (response_ct data) = Inr (computedMac r) \<and>
                  mac r = response_tag data \<and> equal_bits (mac r) (computedMac r))"
proof -
  obtain cmac where c: "hmac_cbc_mac (E (map toW mk)) (response_ct data) = Inr cmac"
    using hmac_cbc_mac_Inr by blast
  note u = parse_unfold[where E=E, OF assms c]
  have 1: "(\<exists>m. parse E D aesKey0 macKey0 data = Inl (Corrupt m)) \<and>
              (\<forall>D'. parse E D' aesKey0 macKey0 data = parse E D aesKey0 macKey0 data)"
    if "\<not> equal_bits (response_tag data) cmac"
    using that by (simp add: u)
  have 2: "hmac_cbc_mac (E (map toW mk)) (response_ct data) = Inr (computedMac r) \<and>
           mac r = response_tag data \<and> equal_bits (mac r) (computedMac r)"
    if "parse E D aesKey0 macKey0 data = Inr r" for r
  proof -
    from that have e: "equal_bits (response_tag data) cmac"
      and p: "parse_decrypt (D (map toW ak)) (verified_response data cmac) (response_ct data)
             (response_plainBits data) = Inr r"
      unfolding u[of D] by (auto split: if_splits)
    from parse_decrypt_mac[OF p] have "mac r = response_tag data" "computedMac r = cmac"
      by (simp_all add: verified_response_def)
    then show ?thesis using e c by simp
  qed
  have A: "(\<forall>c. hmac_cbc_mac (E (map toW mk)) (response_ct data) = Inr c
              \<longrightarrow> \<not> equal_bits (response_tag data) c)
          \<longrightarrow> (\<exists>m. parse E D aesKey0 macKey0 data = Inl (Corrupt m)) \<and>
              (\<forall>D'. parse E D' aesKey0 macKey0 data = parse E D aesKey0 macKey0 data)"
  proof
    assume "\<forall>c. hmac_cbc_mac (E (map toW mk)) (response_ct data) = Inr c
              \<longrightarrow> \<not> equal_bits (response_tag data) c"
    then have "\<not> equal_bits (response_tag data) cmac" using c by blast
    then show "(\<exists>m. parse E D aesKey0 macKey0 data = Inl (Corrupt m)) \<and>
              (\<forall>D'. parse E D' aesKey0 macKey0 data = parse E D aesKey0 macKey0 data)"
      by (rule 1)
  qed
  have B: "\<forall>r. parse E D aesKey0 macKey0 data = Inr r
              \<longrightarrow> hmac_cbc_mac (E (map toW mk)) (response_ct data) = Inr (computedMac r) \<and>
                  mac r = response_tag data \<and> equal_bits (mac r) (computedMac r)"
    using 2 by blast
  show ?thesis using A B by (rule conjI)
qed

theorem parse_mac_before_decrypt_witness:
  "parseInt16 (status response_bad_tag) = Some 0x9000 \<and> function_name response_bad_tag \<noteq> [] \<and>
   hmac_cbc_mac (\<lambda>b. b) (response_ct response_bad_tag)
     = Inr [0x00112233, 0x44556677, - 0x77665545, - 0x33221101] \<and>
   \<not> equal_bits (response_tag response_bad_tag)
       [0x00112233, 0x44556677, - 0x77665545, - 0x33221101] \<and>
   (\<exists>m. parse (\<lambda>k b. b) (\<lambda>k b. b) (Bits (replicate 8 0)) (Bits (replicate 8 0)) response_bad_tag
          = Inl (Corrupt m))"
proof -
  have k: "inputToBits (Bits (replicate 8 0)) = Inr (replicate 8 0)"
    by (simp add: inputToBits_def)
  have l: "length (replicate 8 (0::int)) = 4 \<or> length (replicate 8 (0::int)) = 6
      \<or> length (replicate 8 (0::int)) = 8" by simp
  have m: "hmac_cbc_mac (\<lambda>b. b) (response_ct response_bad_tag)
     = Inr [0x00112233, 0x44556677, - 0x77665545, - 0x33221101]"
    by (simp only: bad_tag_ct bad_tag_mac)
  have n: "\<not> equal_bits (response_tag response_bad_tag)
       [0x00112233, 0x44556677, - 0x77665545, - 0x33221101]"
    unfolding bad_tag_tag by (rule bad_tag_neq)
  have h: "\<forall>c. hmac_cbc_mac ((\<lambda>k b. b) (map toW (replicate 8 0))) (response_ct response_bad_tag) = Inr c
        \<longrightarrow> \<not> equal_bits (response_tag response_bad_tag) c"
    using m n by auto
  from parse_mac_before_decrypt[where E="\<lambda>k b. b" and D="\<lambda>k b. b", OF bad_tag_status k k l l,
      THEN conjunct1, THEN mp, OF h]
  have "\<exists>m. parse (\<lambda>k b. b) (\<lambda>k b. b) (Bits (replicate 8 0)) (Bits (replicate 8 0)) response_bad_tag
          = Inl (Corrupt m)" by blast
  then show ?thesis using bad_tag_status m n by blast
qed

text \<open>
  C10. The patching of the template blob in \<open>templateFiller.build\<close> (the key loop and the
  change of the flag byte) leaves the length of the blob and every bit outside the spliced
  key slots \<open>[offset, offset + length)\<close> and outside the flag byte \<open>[flagoffset + 8,
  flagoffset + 16)\<close> unchanged, for spliced slots and a flag byte that lie inside the blob.
  A slot is spliced when a key of its type is supplied and has the length of the slot; the
  bits of a slot that the key loop skips are unchanged as well. \<open>replacePart\<close> and
  \<open>transformPart\<close> keep the bits before \<open>offsetStartBit\<close> and the bits from \<open>offsetEndBit\<close>
  on, and put the replacement between them.
\<close>

theorem patch_template_frame:
  assumes "inputToBits (template tpl) = Inr ba0" "wfb ba0"
    and "\<forall>ko \<in> set (keyoffsets tpl). spliced keys ko \<longrightarrow>
            0 \<le> ko_offset ko \<and> 0 \<le> ko_length ko \<and> ko_offset ko + ko_length ko \<le> bitLength ba0"
    and "\<forall>ko \<in> set (keyoffsets tpl). spliced keys ko \<longrightarrow>
            (\<forall>k kv. keys (ko_type ko) = Some k \<longrightarrow> inputToBits k = Inr kv \<longrightarrow> wfb kv)"
    and "0 \<le> flagoffset tpl + 8" "flagoffset tpl + 16 \<le> bitLength ba0"
    and "patch_template tpl keys = Inr ba"
  shows "wfb ba \<and> length (bits ba) = length (bits ba0) \<and>
         (\<forall>i < length (bits ba0). untouched tpl keys i \<longrightarrow> bits ba ! i = bits ba0 ! i) \<and>
         (\<forall>buffer s e r. wfb buffer \<and> wfb r \<and> 0 \<le> s \<and> s \<le> bitLength buffer \<and> 0 \<le> e \<longrightarrow>
            bits (replacePart buffer s e r)
              = take (nat s) (bits buffer) @ bits r @ drop (nat e) (bits buffer)) \<and>
         (\<forall>buffer s e f. wfb buffer \<and> 0 \<le> s \<and> s \<le> bitLength buffer \<and> 0 \<le> e \<and>
              wfb (f (bitSlice buffer s (Some e))) \<longrightarrow>
            bits (transformPart buffer s e f)
              = take (nat s) (bits buffer) @ bits (f (bitSlice buffer s (Some e)))
                @ drop (nat e) (bits buffer))"
proof -
  obtain ba1 app where f: "fill_keys keys (keyoffsets tpl) (ba0, False) = Inr (ba1, app)"
    and p: "ba = transformPart ba1 (flagoffset tpl + 8) (flagoffset tpl + 16) (reset_flags app)"
    using assms(7) assms(1)
    by (auto simp: patch_template_def bind_err_def split: sum.splits prod.splits)
  from fill_keys_frame[OF assms(2,3,4) f]
  have k: "wfb ba1" "bitLength ba1 = bitLength ba0"
    "\<forall>i < length (bits ba0). outside_slots keys (keyoffsets tpl) i \<longrightarrow> bits ba1 ! i = bits ba0 ! i"
    by simp_all
  let ?s = "flagoffset tpl + 8" and ?e = "flagoffset tpl + 16"
  let ?r = "reset_flags app (bitSlice ba1 ?s (Some ?e))"
  have se: "0 \<le> ?s" "?s \<le> bitLength ba1" "0 \<le> ?e" using assms(5,6) k(2) by simp_all
  from transformPart_spec[OF k(1) se reset_flags_wfb(1)]
  have t: "wfb ba" "bits ba = take (nat ?s) (bits ba1) @ bits ?r @ drop (nat ?e) (bits ba1)"
    by (simp_all add: p)
  have l1: "length (bits ba1) = length (bits ba0)"
    using length_bits[OF k(1)] length_bits[OF assms(2)] k(2) by simp
  have c: "nat ?s \<le> nat ?e" "nat ?e \<le> length (bits ba1)" "length (bits ?r) = nat ?e - nat ?s"
    using assms(5,6) length_bits[OF k(1)] k(2) reset_flags_wfb(2)[of app "bitSlice ba1 ?s (Some ?e)"]
    by linarith+
  have l: "length (bits ba) = length (bits ba0)"
    unfolding t(2) using splice_frame(1)[OF c] l1 by simp
  have u: "bits ba ! i = bits ba0 ! i" if "i < length (bits ba0)" "untouched tpl keys i" for i
  proof -
    have o: "outside_slots keys (keyoffsets tpl) i"
      and nf: "\<not> (?s \<le> int i \<and> int i < ?e)"
      using that(2) by (simp_all add: untouched_def)
    have "bits ba ! i = bits ba1 ! i"
    proof (cases "int i < ?s")
      case True
      then have "i < nat ?s" using assms(5) by linarith
      then show ?thesis unfolding t(2) by (rule splice_frame(2)[OF c])
    next
      case False
      then have "nat ?e \<le> i" using nf by linarith
      then show ?thesis unfolding t(2) using that(1) l1 by (intro splice_frame(3)[OF c]) simp_all
    qed
    then show ?thesis using k(3) that(1) o by simp
  qed
  have rp: "\<forall>buffer s e r. wfb buffer \<and> wfb r \<and> 0 \<le> s \<and> s \<le> bitLength buffer \<and> 0 \<le> e \<longrightarrow>
            bits (replacePart buffer s e r)
              = take (nat s) (bits buffer) @ bits r @ drop (nat e) (bits buffer)"
    using replacePart_spec by blast
  have tp: "\<forall>buffer s e f. wfb buffer \<and> 0 \<le> s \<and> s \<le> bitLength buffer \<and> 0 \<le> e \<and>
              wfb (f (bitSlice buffer s (Some e))) \<longrightarrow>
            bits (transformPart buffer s e f)
              = take (nat s) (bits buffer) @ bits (f (bitSlice buffer s (Some e)))
                @ drop (nat e) (bits buffer)"
    using transformPart_spec by blast
  have fr: "\<forall>i < length (bits ba0). untouched tpl keys i \<longrightarrow> bits ba ! i = bits ba0 ! i"
    using u by blast
  show ?thesis using t(1) l fr rp tp by (intro conjI)
qed

theorem patch_template_frame_witness:
  "inputToBits (template example_template) = Inr [0x00ff0000, - 1430532899, 17592187158528] \<and>
   wfb [0x00ff0000, - 1430532899, 17592187158528] \<and>
   patch_template example_template example_keys = Inr [0x00f70000, 0x01020304, 17592187158528] \<and>
   spliced example_keys \<lparr>ko_type = ''commk'', ko_offset = 32, ko_length = 32\<rparr> \<and>
   \<not> spliced example_keys \<lparr>ko_type = ''app'', ko_offset = 64, ko_length = 16\<rparr> \<and>
   length (bits [0x00f70000, 0x01020304, 17592187158528])
     = length (bits [0x00ff0000, - 1430532899, 17592187158528]) \<and>
   bits [0x00f70000, 0x01020304, 17592187158528] ! 20
     = bits [0x00ff0000, - 1430532899, 17592187158528] ! 20 \<and>
   bits [0x00f70000, 0x01020304, 17592187158528] ! 72
     = bits [0x00ff0000, - 1430532899, 17592187158528] ! 72"
proof -
  let ?a = "[0x00ff0000, - 1430532899, 17592187158528] :: int list"
  let ?b = "[0x00f70000, 0x01020304, 17592187158528] :: int list"
  let ?c = "\<lparr>ko_type = ''commk'', ko_offset = 32, ko_length = 32\<rparr>"
  let ?p = "\<lparr>ko_type = ''app'', ko_offset = 64, ko_length = 16\<rparr>"
  have i: "inputToBits (template example_template) = Inr ?a"
    by (simp add: example_template_def example_blob)
  have bl: "bitLength [0x01020304] = 32" "bitLength [0x05060708] = 32" by code_simp+
  have sc: "spliced example_keys ?c"
    by (simp add: spliced_def example_keys_def example_key_bits(1) bl(1))
  have sp: "\<not> spliced example_keys ?p"
    by (simp add: spliced_def example_keys_def example_key_bits(2) bl(2))
  have ks: "keyoffsets example_template = [?c, ?p]" by (simp add: example_template_def)
  have r: "\<forall>ko \<in> set (keyoffsets example_template). spliced example_keys ko \<longrightarrow>
            0 \<le> ko_offset ko \<and> 0 \<le> ko_length ko \<and> ko_offset ko + ko_length ko \<le> bitLength ?a"
    unfolding ks using sp by (simp add: example_blob_wfb(2))
  have kw: "\<forall>ko \<in> set (keyoffsets example_template). spliced example_keys ko \<longrightarrow>
            (\<forall>k kv. example_keys (ko_type ko) = Some k \<longrightarrow> inputToBits k = Inr kv \<longrightarrow> wfb kv)"
    unfolding ks using sp example_key_bits by (auto simp: example_keys_def)
  have fl: "0 \<le> flagoffset example_template + 8" "flagoffset example_template + 16 \<le> bitLength ?a"
    by (simp_all add: example_template_def example_blob_wfb(2))
  note th = patch_template_frame[OF i example_blob_wfb(1) r kw fl example_patch]
  have len: "length (bits ?b) = length (bits ?a)" using th by blast
  have "int (length (bits ?a)) = 80" using length_bits[OF example_blob_wfb(1)] example_blob_wfb(2) by simp
  then have lt: "20 < length (bits ?a)" "72 < length (bits ?a)" by linarith+
  have fo: "flagoffset example_template = 0" by (simp add: example_template_def)
  have un: "untouched example_template example_keys 20" "untouched example_template example_keys 72"
    unfolding untouched_def outside_slots_def ks fo using sp by simp_all
  have "\<forall>i < length (bits ?a). untouched example_template example_keys i \<longrightarrow> bits ?b ! i = bits ?a ! i"
    using th by blast
  then have "bits ?b ! 20 = bits ?a ! 20" "bits ?b ! 72 = bits ?a ! 72" using lt un by blast+
  then show ?thesis using i example_blob_wfb(1) example_patch sc sp len by (intro conjI)
qed

text \<open>
  C4. For a byte-aligned bit array \<open>a\<close>, \<open>eb.padding.pkcs7.pad\<close> appends \<open>k\<close> bytes of value
  \<open>k\<close>, where \<open>k = 16 - (len mod 16)\<close> and \<open>len\<close> is the length of \<open>a\<close> in bytes (a full block of
  sixteen bytes when \<open>len\<close> is a multiple of 16), and \<open>eb.padding.pkcs7.unpad\<close> gives \<open>a\<close> back
  from the result. For an input \<open>c\<close> of \<open>unpad\<close>: a returned \<open>y\<close> is \<open>c\<close> without its last \<open>k\<close>
  bytes, for a \<open>k\<close> between 1 and 16 such that these bytes all have the value \<open>k\<close>; an input that
  is a positive multiple of the block size and ends in \<open>k\<close> bytes of value \<open>k\<close> is accepted and
  stripped of them; every other input raises \<open>Corrupt\<close>. Lengths are below \<open>2^31\<close> bits, the
  range of the 32-bit operators of the code.
\<close>

theorem pkcs7_pad_unpad:
  assumes "wfb a" "bitLength a mod 8 = 0" "bitLength a < 0x7fffff00"
  shows "(\<exists>p y k. k = 16 - (bitLength a div 8) mod 16 \<and>
            pkcs7_pad a None = Inr p \<and> wfb p \<and>
            bits p = bits a @ bytes_bits (replicate (nat k) (word_of_int k)) \<and>
            pkcs7_unpad p None = Inr y \<and> wfb y \<and> bits y = bits a) \<and>
         (\<forall>c. wfb c \<and> bitLength c < 0x80000000 \<longrightarrow>
            (\<forall>y. pkcs7_unpad c None = Inr y \<longrightarrow>
               (\<exists>k. 1 \<le> k \<and> k \<le> 16 \<and> wfb y \<and>
                    bits c = bits y @ bytes_bits (replicate k (of_nat k)))) \<and>
            (\<forall>k x. 1 \<le> k \<and> k \<le> 16 \<and> c \<noteq> [] \<and> bitLength c mod 128 = 0 \<and>
                   bits c = x @ bytes_bits (replicate k (of_nat k)) \<longrightarrow>
               (\<exists>y. pkcs7_unpad c None = Inr y \<and> wfb y \<and> bits y = x)) \<and>
            ((\<exists>y. pkcs7_unpad c None = Inr y) \<or> (\<exists>m. pkcs7_unpad c None = Inl (Corrupt m))))"
proof (intro conjI allI impI)
  define n where "n = bitLength a div 8"
  define k where "k = 16 - n mod 16"
  have k: "1 \<le> k" "k \<le> 16" by (simp_all add: k_def)
  have n0: "0 \<le> n" using bitLength_nonneg[OF assms(1)] by (simp add: n_def)
  obtain p where p: "pkcs7_pad a None = Inr p" "wfb p"
    "bits p = bits a @ bytes_bits (replicate (nat k) (word_of_int k))"
    "bitLength p = 8 * (n + k)"
    using pkcs7_pad_spec[OF assms] unfolding k_def n_def by blast
  have "length (bits p) = length (bits a) + 8 * nat k" unfolding p(3) by simp
  then have "bits p \<noteq> []" using k by auto
  then have pn: "p \<noteq> []" by auto
  have "(n + k) mod 16 = 0" unfolding k_def by presburger
  then have m: "bitLength p mod 128 = 0" unfolding p(4) by presburger
  have "8 * n \<le> bitLength a" unfolding n_def by simp
  then have lt: "bitLength p < 0x80000000" unfolding p(4) using assms(3) k by simp
  have w: "(word_of_int k :: 8 word) = of_nat (nat k)" using k by simp
  have nk: "1 \<le> nat k" "nat k \<le> 16" using k by simp_all
  obtain y where y: "pkcs7_unpad p None = Inr y" "wfb y" "bits y = bits a"
    using pkcs7_unpad_accepts[OF p(2) pn m lt nk p(3)[unfolded w]] by blast
  have kk: "k = 16 - (bitLength a div 8) mod 16" by (simp add: k_def n_def)
  show "\<exists>p y k. k = 16 - (bitLength a div 8) mod 16 \<and>
            pkcs7_pad a None = Inr p \<and> wfb p \<and>
            bits p = bits a @ bytes_bits (replicate (nat k) (word_of_int k)) \<and>
            pkcs7_unpad p None = Inr y \<and> wfb y \<and> bits y = bits a"
    by (intro exI[of _ p] exI[of _ y] exI[of _ k] conjI kk p(1) p(2) p(3) y)
next
  fix c y
  assume c: "wfb c \<and> bitLength c < 0x80000000" and u: "pkcs7_unpad c None = Inr y"
  have "\<not> (bitLength c mod 128 \<noteq> 0 \<or> c = [])"
  proof
    assume "bitLength c mod 128 \<noteq> 0 \<or> c = []"
    from pkcs7_unpad_misaligned[OF this] u show False by simp
  qed
  then have n: "c \<noteq> []" "bitLength c mod 128 = 0" by simp_all
  show "\<exists>k. 1 \<le> k \<and> k \<le> 16 \<and> wfb y \<and> bits c = bits y @ bytes_bits (replicate k (of_nat k))"
    using c by (intro pkcs7_unpad_sound[OF _ n _ u]) simp_all
next
  fix c k x
  assume c: "wfb c \<and> bitLength c < 0x80000000"
    and h: "1 \<le> k \<and> k \<le> 16 \<and> c \<noteq> [] \<and> bitLength c mod 128 = 0 \<and>
            bits c = x @ bytes_bits (replicate k (of_nat k))"
  show "\<exists>y. pkcs7_unpad c None = Inr y \<and> wfb y \<and> bits y = x"
    using c h by (intro pkcs7_unpad_accepts[of c k x]) simp_all
next
  fix c
  assume c: "wfb c \<and> bitLength c < 0x80000000"
  show "(\<exists>y. pkcs7_unpad c None = Inr y) \<or> (\<exists>m. pkcs7_unpad c None = Inl (Corrupt m))"
  proof (cases "bitLength c mod 128 \<noteq> 0 \<or> c = []")
    case True
    then show ?thesis using pkcs7_unpad_misaligned[of c] by blast
  next
    case False
    then have "(\<exists>y. pkcs7_unpad c None = Inr y)
        \<or> pkcs7_unpad c None = Inl (Corrupt ''pkcs#5 padding corrupt'')"
      using c by (intro pkcs7_unpad_corrupt) simp_all
    then show ?thesis by blast
  qed
qed

theorem pkcs7_pad_unpad_witness:
  "wfb [8794666958848] \<and> bitLength [8794666958848] = 8 \<and>
   pkcs7_pad [8794666958848] None = Inr [- 1425076465, 252645135, 252645135, 252645135] \<and>
   (\<exists>y. pkcs7_unpad [- 1425076465, 252645135, 252645135, 252645135] None = Inr y \<and>
        bits y = bits [8794666958848])"
proof -
  have "bitLength [8794666958848] mod 8 = 0" "bitLength [8794666958848] < 0x7fffff00"
    by (simp_all add: example_padded(2))
  note th = pkcs7_pad_unpad[OF example_padded(1) this, THEN conjunct1]
  then obtain p y where "pkcs7_pad [8794666958848] None = Inr p"
    "pkcs7_unpad p None = Inr y" "bits y = bits [8794666958848]" by blast
  then have "\<exists>y. pkcs7_unpad [- 1425076465, 252645135, 252645135, 252645135] None = Inr y \<and>
        bits y = bits [8794666958848]"
    by (simp add: example_padded(3))
  then show ?thesis using example_padded by (intro conjI)
qed

text \<open>
  C7, at a data byte that fills the block up to the three bytes of the layout. For one byte
  of data, block length 4 and block type 1, no padding byte is left (\<open>4 - 3 - 1 = 0\<close>, fewer
  than 8), and \<open>eb.padding.pkcs15.pad\<close> does not reject the input: it returns the four bytes
  \<open>00 01 00 aa\<close>, with an empty padding string.
\<close>

theorem pkcs15_pad_short_padding_accepted:
  "pkcs15_pad [] [partial 8 0xaa False] 4 (Some 1) = Inr ([0x000100aa], []) \<and>
   4 - 3 - bitLength [partial 8 0xaa False] div 8 = 0"
  by code_simp

text \<open>
  C7 (as amended). For every byte-aligned, non-empty data and block type \<open>BT\<close> in \<open>{0, 1, 2}\<close>,
  \<open>eb.padding.pkcs15.pad (data, blockLen, BT)\<close> rejects the input with \<open>Corrupt\<close> when
  \<open>|data| + 3 > blockLen\<close>, and otherwise produces the layout \<open>0x00\<close>, \<open>BT\<close>, \<open>PS\<close>, \<open>0x00\<close>, data,
  where the padding string \<open>PS\<close> has length \<open>blockLen - 3 - |data|\<close>, which is at least 0, and
  consists of bytes \<open>0x00\<close> for type 0, bytes \<open>0xFF\<close> for type 1 and non-zero bytes for type 2
  (for type 2 the generator supplies enough words with a non-zero low byte). Inputs that are
  empty or not byte-aligned are rejected with \<open>Corrupt\<close> as well.
\<close>

theorem pkcs15_pad_layout:
  assumes "wfb a" "bt = 0 \<or> bt = 1 \<or> bt = 2"
    and "bt = 2 \<longrightarrow> nat (blockLength - 3 - bitLength a div 8) \<le> length (usable rng)"
  shows "if bitLength a mod 8 \<noteq> 0 \<or> a = [] \<or> blockLength < bitLength a div 8 + 3
         then \<exists>m. pkcs15_pad rng a blockLength (Some bt) = Inl (Corrupt m)
         else \<exists>out rng' ps. pkcs15_pad rng a blockLength (Some bt) = Inr (out, rng') \<and> wfb out \<and>
                bits out = bytes_bits ([0, word_of_int bt] @ ps @ [0]) @ bits a \<and>
                int (length ps) = blockLength - 3 - bitLength a div 8 \<and> ps_filler bt ps"
proof (cases "bitLength a mod 8 \<noteq> 0 \<or> a = [] \<or> blockLength < bitLength a div 8 + 3")
  case True
  then show ?thesis using pkcs15_pad_reject[OF True assms(2)] by simp
next
  case False
  then have h: "a \<noteq> []" "bitLength a mod 8 = 0" "bitLength a div 8 + 3 \<le> blockLength"
    by simp_all
  show ?thesis using False pkcs15_pad_spec[OF assms(1) h(1,2) assms(2) h(3) assms(3)] by simp
qed

theorem pkcs15_pad_layout_witness:
  "wfb [partial 8 0xaa False] \<and> bitLength [partial 8 0xaa False] = 8 \<and>
   usable [0x100, 0x1ab, 0x200, 0xcd, 7] = [0x1ab, 0xcd, 7] \<and>
   pkcs15_pad [0x100, 0x1ab, 0x200, 0xcd, 7] [partial 8 0xaa False] 6 (Some 2)
     = Inr ([0x0002abcd, 17592197185536], [7]) \<and>
   (\<exists>ps. bits [0x0002abcd, 17592197185536]
            = bytes_bits ([0, 2] @ ps @ [0]) @ bits [partial 8 0xaa False] \<and>
         length ps = 2 \<and> ps_filler 2 ps)"
proof -
  let ?rng = "[0x100, 0x1ab, 0x200, 0xcd, 7] :: int list"
  let ?a = "[partial 8 0xaa False]"
  have u: "(2::int) = 2 \<longrightarrow> nat (6 - 3 - bitLength ?a div 8) \<le> length (usable ?rng)"
    by (simp add: example_pkcs15(3,4))
  have b: "(2::int) = 0 \<or> (2::int) = 1 \<or> (2::int) = 2" by simp
  have c: "\<not> (bitLength ?a mod 8 \<noteq> 0 \<or> ?a = [] \<or> 6 < bitLength ?a div 8 + 3)"
    by (simp add: example_pkcs15(3))
  from pkcs15_pad_layout[OF example_pkcs15(2) b u]
  have "\<exists>out rng' ps. pkcs15_pad ?rng ?a 6 (Some 2) = Inr (out, rng') \<and> wfb out \<and>
                bits out = bytes_bits ([0, word_of_int 2] @ ps @ [0]) @ bits ?a \<and>
                int (length ps) = 6 - 3 - bitLength ?a div 8 \<and> ps_filler 2 ps"
    using c by (simp only: if_False)
  then obtain out rng' ps where o: "pkcs15_pad ?rng ?a 6 (Some 2) = Inr (out, rng')"
    "bits out = bytes_bits ([0, word_of_int 2] @ ps @ [0]) @ bits ?a"
    "int (length ps) = 6 - 3 - bitLength ?a div 8" "ps_filler 2 ps" by blast
  have "out = [0x0002abcd, 17592197185536]" using o(1) by (simp add: example_pkcs15(1))
  moreover have "length ps = 2" using o(3) by (simp add: example_pkcs15(3))
  ultimately have "\<exists>ps. bits [0x0002abcd, 17592197185536]
            = bytes_bits ([0, 2] @ ps @ [0]) @ bits ?a \<and> length ps = 2 \<and> ps_filler 2 ps"
    using o(2,4) by auto
  then show ?thesis using example_pkcs15 by (intro conjI)
qed

end
